theory Spec2Isabelle
  imports Main "HOL-Library.Word"
begin

unbundle bit_operations_syntax

section \<open>Link-state reconciliation of the resolver (resolved-link.c)\<close>

subsection \<open>Constants of the system headers\<close>

definition AF_UNSPEC :: int where "AF_UNSPEC = 0"
definition AF_INET :: int where "AF_INET = 2"
definition AF_INET6 :: int where "AF_INET6 = 10"

definition IFF_LOOPBACK :: "32 word" where "IFF_LOOPBACK = 0x8"
definition IFF_MULTICAST :: "32 word" where "IFF_MULTICAST = 0x1000"

definition IFA_F_DEPRECATED :: "8 word" where "IFA_F_DEPRECATED = 0x20"
definition RT_SCOPE_HOST :: "8 word" where "RT_SCOPE_HOST = 254"
definition RT_SCOPE_NOWHERE :: "8 word" where "RT_SCOPE_NOWHERE = 255"

definition ENOMEM :: int where "ENOMEM = 12"
definition EEXIST :: int where "EEXIST = 17"
definition IFNAMSIZ :: nat where "IFNAMSIZ = 16"

text \<open>RFC 4795 Section 2.8 suggests a TTL of 30s by default.\<close>

definition LLMNR_DEFAULT_TTL :: nat where "LLMNR_DEFAULT_TTL = 30"

subsection \<open>Data model\<close>

text \<open>
  Heap objects carry the address they were allocated at (a \<open>nat\<close>), which is their
  identity: two objects are the same entity iff they have the same address. An
  \<open>in_addr_union\<close> value is kept abstract as a number.
\<close>

datatype DnsProtocol = DNS_PROTOCOL_DNS | DNS_PROTOCOL_LLMNR

datatype DnsType = DNS_TYPE_A | DNS_TYPE_AAAA | DNS_TYPE_PTR

text \<open>An owner name is the host name or the reverse-lookup name of an address.\<close>

datatype dns_name = HostName string | ReverseName int nat

record DnsResourceKey =
  key_ptr :: nat
  key_type :: DnsType
  key_name :: dns_name

datatype rr_data = RR_NONE | RR_A nat | RR_AAAA nat | RR_PTR string

record DnsResourceRecord =
  rr_ptr :: nat
  rr_key :: DnsResourceKey
  rr_data :: rr_data
  rr_ttl :: nat

text \<open>The zone of a scope holds references to records: the set of their addresses.\<close>

record DnsScope =
  scope_ptr :: nat
  scope_protocol :: DnsProtocol
  scope_family :: int
  zone :: "nat set"

record DnsServer =
  server_ptr :: nat
  server_family :: int
  server_address :: nat
  marked :: bool

record LinkAddress =
  a_ptr :: nat
  a_family :: int
  a_in_addr :: nat
  a_flags :: "8 word"
  a_scope :: "8 word"
  llmnr_address_rr :: "DnsResourceRecord option"
  llmnr_ptr_rr :: "DnsResourceRecord option"

text \<open>
  \<open>has_manager\<close> is whether the link's \<open>manager\<close> back pointer is set; the cursor
  \<open>current_dns_server\<close> is a pointer into \<open>dns_servers\<close> or NULL.
\<close>

record Link =
  link_ptr :: nat
  has_manager :: bool
  ifindex :: int
  l_flags :: "32 word"
  addresses :: "LinkAddress list"
  dns_servers :: "DnsServer list"
  current_dns_server :: "nat option"
  unicast_scope :: "DnsScope option"
  llmnr_ipv4_scope :: "DnsScope option"
  llmnr_ipv6_scope :: "DnsScope option"
  l_name :: string
  l_mtu :: "32 word"

text \<open>
  The hashmap \<open>links\<close> of the manager maps an interface index to a pointer to its link;
  it is NULL (\<open>None\<close>) until it is first allocated.
\<close>

record Manager =
  links :: "(int \<rightharpoonup> nat) option"
  use_llmnr :: bool
  hostname :: string
  host_ipv4_key :: "DnsResourceKey option"
  host_ipv6_key :: "DnsResourceKey option"

subsection \<open>The services the file calls\<close>

text \<open>
  The network-configuration queries and the address parser are parameters, with the C
  calling convention: a return code (negative on failure) next to the out parameters.
  \<open>sd_network_get_link_operational_state\<close> leaves its out parameter NULL when it
  reports nothing.
\<close>

record Env =
  sd_network_get_dns :: "int \<Rightarrow> int \<times> string list"
  sd_network_get_link_operational_state :: "int \<Rightarrow> string option"
  in_addr_from_string_auto :: "string \<Rightarrow> int \<times> int \<times> nat"

datatype event =
    LogWarning string int
  | LogDebug string int
  | ZoneRemove nat nat
  | RecordUnref nat
  | AddressFree nat
  | HashmapRemove int
  | ScopeFree nat
  | ServerFree nat
  | LinkFree int

text \<open>
  The rest of the process: the next fresh heap address, the return codes of the fallible
  calls still to come (a negative code is a failure; once the list is used up every call
  succeeds), and the releases and log lines so far, oldest first.
\<close>

record World =
  next_ptr :: nat
  outcomes :: "int list"
  events :: "event list"

definition emit :: "event \<Rightarrow> World \<Rightarrow> World" where
  "emit e w = w\<lparr>events := events w @ [e]\<rparr>"

definition next_outcome :: "World \<Rightarrow> int \<times> World" where
  "next_outcome w =
     (case outcomes w of
        [] \<Rightarrow> (0, w)
      | r # rs \<Rightarrow> (r, w\<lparr>outcomes := rs\<rparr>))"

text \<open>\<open>new0\<close>: NULL when the allocation fails, else a fresh address.\<close>

definition new0 :: "World \<Rightarrow> nat option \<times> World" where
  "new0 w =
     (case next_outcome w of (r, w') \<Rightarrow>
        if r < 0 then (None, w')
        else (Some (next_ptr w'), w'\<lparr>next_ptr := Suc (next_ptr w')\<rparr>))"

text \<open>
  Modelled from the spec: \<open>in_addr_equal\<close> is not part of this file; an entry matches
  on the same family and value.
\<close>

definition in_addr_equal :: "int \<Rightarrow> nat \<Rightarrow> nat \<Rightarrow> bool" where
  "in_addr_equal family a b = (a = b)"

subsection \<open>Relevance\<close>

definition link_address_relevant :: "LinkAddress \<Rightarrow> bool" where
  "link_address_relevant a =
     (if a_flags a AND IFA_F_DEPRECATED \<noteq> 0 then False
      else if a_scope a = RT_SCOPE_HOST \<or> a_scope a = RT_SCOPE_NOWHERE then False
      else True)"

fun any_relevant_address :: "LinkAddress list \<Rightarrow> int \<Rightarrow> bool" where
  "any_relevant_address [] family = False"
| "any_relevant_address (a # as) family =
     (if a_family a = family \<and> link_address_relevant a then True
      else any_relevant_address as family)"

definition link_relevant :: "Env \<Rightarrow> Link \<Rightarrow> int \<Rightarrow> bool" where
  "link_relevant env l family =
     (if l_flags l AND IFF_LOOPBACK \<noteq> 0 then False
      else
        (case sd_network_get_link_operational_state env (ifindex l) of
           Some state \<Rightarrow>
             if state \<noteq> ''unknown'' \<and> state \<noteq> ''degraded'' \<and> state \<noteq> ''routable''
             then False
             else any_relevant_address (addresses l) family
         | None \<Rightarrow> any_relevant_address (addresses l) family))"

subsection \<open>Lookup and the server cursor\<close>

fun find_address :: "LinkAddress list \<Rightarrow> int \<Rightarrow> nat \<Rightarrow> LinkAddress option" where
  "find_address [] family in_addr = None"
| "find_address (a # as) family in_addr =
     (if a_family a = family \<and> in_addr_equal family (a_in_addr a) in_addr then Some a
      else find_address as family in_addr)"

definition link_find_address :: "Link \<Rightarrow> int \<Rightarrow> nat \<Rightarrow> LinkAddress option" where
  "link_find_address l family in_addr = find_address (addresses l) family in_addr"

fun find_dns_server :: "DnsServer list \<Rightarrow> int \<Rightarrow> nat \<Rightarrow> DnsServer option" where
  "find_dns_server [] family in_addr = None"
| "find_dns_server (s # ss) family in_addr =
     (if server_family s = family \<and> in_addr_equal family (server_address s) in_addr
      then Some s
      else find_dns_server ss family in_addr)"

definition link_find_dns_server :: "Link \<Rightarrow> int \<Rightarrow> nat \<Rightarrow> DnsServer option" where
  "link_find_dns_server l family in_addr = find_dns_server (dns_servers l) family in_addr"

text \<open>The head of the server list, as a pointer.\<close>

definition servers_head :: "DnsServer list \<Rightarrow> nat option" where
  "servers_head ss = (case ss of [] \<Rightarrow> None | s # _ \<Rightarrow> Some (server_ptr s))"

text \<open>\<open>p->servers_next\<close> for the server at address \<open>p\<close> in the list.\<close>

fun servers_next :: "DnsServer list \<Rightarrow> nat \<Rightarrow> nat option" where
  "servers_next [] p = None"
| "servers_next (s # ss) p =
     (if server_ptr s = p then servers_head ss else servers_next ss p)"

definition link_get_dns_server :: "Link \<Rightarrow> nat option \<times> Link" where
  "link_get_dns_server l =
     (let l' = (if current_dns_server l = None
                then l\<lparr>current_dns_server := servers_head (dns_servers l)\<rparr> else l)
      in (current_dns_server l', l'))"

definition link_next_dns_server :: "Link \<Rightarrow> Link" where
  "link_next_dns_server l =
     (case current_dns_server l of
        None \<Rightarrow> l\<lparr>current_dns_server := servers_head (dns_servers l)\<rparr>
      | Some p \<Rightarrow>
          (case servers_next (dns_servers l) p of
             Some n \<Rightarrow> l\<lparr>current_dns_server := Some n\<rparr>
           | None \<Rightarrow> l\<lparr>current_dns_server := servers_head (dns_servers l)\<rparr>))"

subsection \<open>Reconciling the DNS server list\<close>

text \<open>
  Modelled from the spec: \<open>dns_server_new\<close> is not part of this file; a reported address
  that matches no entry gets a new entry, appended to the link's list; creating it can fail
  (allocation).
\<close>

definition dns_server_new :: "World \<Rightarrow> Link \<Rightarrow> int \<Rightarrow> nat \<Rightarrow> int \<times> Link \<times> World" where
  "dns_server_new w l family in_addr =
     (case new0 w of
        (None, w') \<Rightarrow> (- ENOMEM, l, w')
      | (Some p, w') \<Rightarrow>
          (0,
           l\<lparr>dns_servers := dns_servers l @
              [\<lparr>server_ptr = p, server_family = family, server_address = in_addr,
                marked = False\<rparr>]\<rparr>,
           w'))"

text \<open>
  Modelled from the spec: \<open>dns_server_free\<close> is not part of this file; the entry at
  address \<open>p\<close> leaves the link's list, and a cursor that points at it is cleared, never
  left dangling.
\<close>

definition dns_server_free :: "World \<Rightarrow> Link \<Rightarrow> nat \<Rightarrow> Link \<times> World" where
  "dns_server_free w l p =
     (l\<lparr>dns_servers := filter (\<lambda>s. server_ptr s \<noteq> p) (dns_servers l),
        current_dns_server :=
          (if current_dns_server l = Some p then None else current_dns_server l)\<rparr>,
      emit (ServerFree p) w)"

text \<open>\<open>s->marked = false\<close> through the pointer \<open>p\<close> that the lookup returned.\<close>

definition unmark :: "nat \<Rightarrow> DnsServer list \<Rightarrow> DnsServer list" where
  "unmark p ss = map (\<lambda>s. if server_ptr s = p then s\<lparr>marked := False\<rparr> else s) ss"

text \<open>
  The \<open>STRV_FOREACH\<close> loop; a negative return code is the jump to \<open>clear\<close>.
\<close>

fun update_dns_servers_loop :: "Env \<Rightarrow> World \<Rightarrow> Link \<Rightarrow> string list \<Rightarrow> int \<times> Link \<times> World" where
  "update_dns_servers_loop env w l [] = (0, l, w)"
| "update_dns_servers_loop env w l (nameserver # rest) =
     (case in_addr_from_string_auto env nameserver of (r, family, a) \<Rightarrow>
        if r < 0 then (r, l, w)
        else
          (case link_find_dns_server l family a of
             Some s \<Rightarrow>
               update_dns_servers_loop env w
                 (l\<lparr>dns_servers := unmark (server_ptr s) (dns_servers l)\<rparr>) rest
           | None \<Rightarrow>
               (case dns_server_new w l family a of (r, l', w') \<Rightarrow>
                  if r < 0 then (r, l', w')
                  else update_dns_servers_loop env w' l' rest)))"

text \<open>The \<open>LIST_FOREACH_SAFE\<close> sweep over the servers that are in the list when it starts.\<close>

fun sweep_marked :: "World \<Rightarrow> Link \<Rightarrow> DnsServer list \<Rightarrow> Link \<times> World" where
  "sweep_marked w l [] = (l, w)"
| "sweep_marked w l (s # ss) =
     (if marked s
      then (case dns_server_free w l (server_ptr s) of (l', w') \<Rightarrow> sweep_marked w' l' ss)
      else sweep_marked w l ss)"

text \<open>\<open>while (l->dns_servers) dns_server_free(l->dns_servers);\<close>\<close>

function clear_dns_servers :: "World \<Rightarrow> Link \<Rightarrow> Link \<times> World" where
  "clear_dns_servers w l =
     (case dns_servers l of
        [] \<Rightarrow> (l, w)
      | s # _ \<Rightarrow>
          (case dns_server_free w l (server_ptr s) of (l', w') \<Rightarrow> clear_dns_servers w' l'))"
  by pat_completeness auto
termination
  by (relation "measure (\<lambda>(w, l). length (dns_servers l))")
     (auto simp: dns_server_free_def intro: le_imp_less_Suc)

declare clear_dns_servers.simps [simp del]

definition link_update_dns_servers :: "Env \<Rightarrow> World \<Rightarrow> Link \<Rightarrow> int \<times> Link \<times> World" where
  "link_update_dns_servers env w l =
     (let l1 = l\<lparr>dns_servers := map (\<lambda>s. s\<lparr>marked := True\<rparr>) (dns_servers l)\<rparr> in
      case sd_network_get_dns env (ifindex l1) of (r, nameservers) \<Rightarrow>
        if r < 0 then (case clear_dns_servers w l1 of (l', w') \<Rightarrow> (r, l', w'))
        else
          (case update_dns_servers_loop env w l1 nameservers of (r, l2, w2) \<Rightarrow>
             if r < 0 then (case clear_dns_servers w2 l2 of (l', w') \<Rightarrow> (r, l', w'))
             else (case sweep_marked w2 l2 (dns_servers l2) of (l', w') \<Rightarrow> (0, l', w'))))"

subsection \<open>Scopes\<close>

text \<open>
  Modelled from the spec: \<open>dns_scope_new\<close> is not part of this file;
  \<open>create_scope(owner, link, protocol, family) -> Scope\<close> is fallible, and a new scope
  has nothing published in its zone.
\<close>

definition dns_scope_new :: "World \<Rightarrow> DnsProtocol \<Rightarrow> int \<Rightarrow> (int + DnsScope) \<times> World" where
  "dns_scope_new w protocol family =
     (case next_outcome w of (r, w') \<Rightarrow>
        if r < 0 then (Inl r, w')
        else
          (Inr \<lparr>scope_ptr = next_ptr w', scope_protocol = protocol, scope_family = family,
                zone = {}\<rparr>,
           w'\<lparr>next_ptr := Suc (next_ptr w')\<rparr>))"

text \<open>
  Modelled from the spec: \<open>dns_scope_free\<close> is not part of this file;
  \<open>destroy_scope(Scope)\<close> releases the scope, its zone with it; it returns NULL, and
  a NULL scope is left alone.
\<close>

definition dns_scope_free :: "World \<Rightarrow> DnsScope option \<Rightarrow> DnsScope option \<times> World" where
  "dns_scope_free w s =
     (case s of
        None \<Rightarrow> (None, w)
      | Some sc \<Rightarrow> (None, emit (ScopeFree (scope_ptr sc)) w))"

text \<open>The three blocks of \<open>link_allocate_scopes\<close>, one per scope.\<close>

definition allocate_unicast_scope :: "World \<Rightarrow> Link \<Rightarrow> Link \<times> World" where
  "allocate_unicast_scope w l =
     (if dns_servers l \<noteq> [] then
        (if unicast_scope l = None then
           (case dns_scope_new w DNS_PROTOCOL_DNS AF_UNSPEC of
              (Inl r, w') \<Rightarrow> (l, emit (LogWarning ''Failed to allocate DNS scope'' r) w')
            | (Inr sc, w') \<Rightarrow> (l\<lparr>unicast_scope := Some sc\<rparr>, w'))
         else (l, w))
      else
        (case dns_scope_free w (unicast_scope l) of (sc, w') \<Rightarrow>
           (l\<lparr>unicast_scope := sc\<rparr>, w')))"

definition allocate_llmnr_ipv4_scope :: "Env \<Rightarrow> Manager \<Rightarrow> World \<Rightarrow> Link \<Rightarrow> Link \<times> World" where
  "allocate_llmnr_ipv4_scope env m w l =
     (if link_relevant env l AF_INET \<and> l_flags l AND IFF_MULTICAST \<noteq> 0 \<and> use_llmnr m then
        (if llmnr_ipv4_scope l = None then
           (case dns_scope_new w DNS_PROTOCOL_LLMNR AF_INET of
              (Inl r, w') \<Rightarrow>
                (l, emit (LogWarning ''Failed to allocate LLMNR IPv4 scope'' r) w')
            | (Inr sc, w') \<Rightarrow> (l\<lparr>llmnr_ipv4_scope := Some sc\<rparr>, w'))
         else (l, w))
      else
        (case dns_scope_free w (llmnr_ipv4_scope l) of (sc, w') \<Rightarrow>
           (l\<lparr>llmnr_ipv4_scope := sc\<rparr>, w')))"

definition allocate_llmnr_ipv6_scope :: "Env \<Rightarrow> Manager \<Rightarrow> World \<Rightarrow> Link \<Rightarrow> Link \<times> World" where
  "allocate_llmnr_ipv6_scope env m w l =
     (if link_relevant env l AF_INET6 \<and> l_flags l AND IFF_MULTICAST \<noteq> 0 \<and> use_llmnr m then
        (if llmnr_ipv6_scope l = None then
           (case dns_scope_new w DNS_PROTOCOL_LLMNR AF_INET6 of
              (Inl r, w') \<Rightarrow>
                (l, emit (LogWarning ''Failed to allocate LLMNR IPv6 scope'' r) w')
            | (Inr sc, w') \<Rightarrow> (l\<lparr>llmnr_ipv6_scope := Some sc\<rparr>, w'))
         else (l, w))
      else
        (case dns_scope_free w (llmnr_ipv6_scope l) of (sc, w') \<Rightarrow>
           (l\<lparr>llmnr_ipv6_scope := sc\<rparr>, w')))"

definition link_allocate_scopes :: "Env \<Rightarrow> Manager \<Rightarrow> World \<Rightarrow> Link \<Rightarrow> Link \<times> World" where
  "link_allocate_scopes env m w l =
     (case allocate_unicast_scope w l of (l1, w1) \<Rightarrow>
      case allocate_llmnr_ipv4_scope env m w1 l1 of (l2, w2) \<Rightarrow>
        allocate_llmnr_ipv6_scope env m w2 l2)"

subsection \<open>Records of an address\<close>

text \<open>
  Modelled from the spec: the record constructors and the zone are not part of this file.
  Every constructor is fallible (allocation) and yields a new handle; \<open>zone_insert\<close>
  is fallible and idempotent (already present is not an error); \<open>zone_remove\<close> is an
  idempotent no-op if the record is absent.
\<close>

definition dns_resource_key_new :: "World \<Rightarrow> DnsType \<Rightarrow> string \<Rightarrow> DnsResourceKey option \<times> World" where
  "dns_resource_key_new w t name =
     (case new0 w of
        (None, w') \<Rightarrow> (None, w')
      | (Some p, w') \<Rightarrow> (Some \<lparr>key_ptr = p, key_type = t, key_name = HostName name\<rparr>, w'))"

definition dns_resource_record_new :: "World \<Rightarrow> DnsResourceKey \<Rightarrow> DnsResourceRecord option \<times> World" where
  "dns_resource_record_new w key =
     (case new0 w of
        (None, w') \<Rightarrow> (None, w')
      | (Some p, w') \<Rightarrow>
          (Some \<lparr>rr_ptr = p, rr_key = key, rr_data = RR_NONE, rr_ttl = 0\<rparr>, w'))"

definition dns_resource_record_new_reverse ::
    "World \<Rightarrow> int \<Rightarrow> nat \<Rightarrow> string \<Rightarrow> (int + DnsResourceRecord) \<times> World" where
  "dns_resource_record_new_reverse w family in_addr name =
     (case next_outcome w of (r, w') \<Rightarrow>
        if r < 0 then (Inl r, w')
        else
          (Inr \<lparr>rr_ptr = Suc (next_ptr w'),
                rr_key = \<lparr>key_ptr = next_ptr w', key_type = DNS_TYPE_PTR,
                          key_name = ReverseName family in_addr\<rparr>,
                rr_data = RR_PTR name, rr_ttl = 0\<rparr>,
           w'\<lparr>next_ptr := Suc (Suc (next_ptr w'))\<rparr>))"

definition dns_zone_put :: "World \<Rightarrow> DnsScope \<Rightarrow> DnsResourceRecord \<Rightarrow> int \<times> DnsScope \<times> World" where
  "dns_zone_put w sc rr =
     (if rr_ptr rr \<in> zone sc then (0, sc, w)
      else
        (case next_outcome w of (r, w') \<Rightarrow>
           if r < 0 then (r, sc, w')
           else (0, sc\<lparr>zone := insert (rr_ptr rr) (zone sc)\<rparr>, w')))"

definition dns_zone_remove_rr :: "World \<Rightarrow> DnsScope \<Rightarrow> DnsResourceRecord \<Rightarrow> DnsScope \<times> World" where
  "dns_zone_remove_rr w sc rr =
     (sc\<lparr>zone := zone sc - {rr_ptr rr}\<rparr>, emit (ZoneRemove (scope_ptr sc) (rr_ptr rr)) w)"

text \<open>
  The last step of each family block of \<open>link_address_add_rrs\<close>: publish both records
  if the address is relevant, else withdraw both. A negative code is the jump to
  \<open>fail\<close>.
\<close>

definition zone_sync ::
    "World \<Rightarrow> DnsScope \<Rightarrow> LinkAddress \<Rightarrow> DnsResourceRecord \<Rightarrow> DnsResourceRecord \<Rightarrow>
     int \<times> World \<times> DnsScope" where
  "zone_sync w sc a address_rr ptr_rr =
     (if link_address_relevant a then
        (case dns_zone_put w sc address_rr of (r, sc1, w1) \<Rightarrow>
           if r < 0 then (r, w1, sc1)
           else
             (case dns_zone_put w1 sc1 ptr_rr of (r, sc2, w2) \<Rightarrow>
                if r < 0 then (r, w2, sc2) else (0, w2, sc2)))
      else
        (case dns_zone_remove_rr w sc address_rr of (sc1, w1) \<Rightarrow>
         case dns_zone_remove_rr w1 sc1 ptr_rr of (sc2, w2) \<Rightarrow> (0, w2, sc2)))"

text \<open>
  One family block of \<open>link_address_add_rrs\<close>, entered when the address has the block's
  family and the link has that family's LLMNR scope \<open>sc\<close>. \<open>key\<close> is the manager's
  host key of the family, \<open>t\<close> its type and \<open>data\<close> the address as record data.
\<close>

definition add_rrs_block ::
    "DnsType \<Rightarrow> rr_data \<Rightarrow> string \<Rightarrow> World \<Rightarrow> DnsResourceKey option \<Rightarrow> DnsScope \<Rightarrow>
     LinkAddress \<Rightarrow> int \<times> World \<times> DnsResourceKey option \<times> DnsScope \<times> LinkAddress" where
  "add_rrs_block t data name w key sc a =
     (case (case key of
              Some k \<Rightarrow> (Some k, w)
            | None \<Rightarrow> dns_resource_key_new w t name) of
        (None, w1) \<Rightarrow> (- ENOMEM, w1, None, sc, a)
      | (Some k, w1) \<Rightarrow>
          (case (case llmnr_address_rr a of
                   Some rr \<Rightarrow> (Some rr, w1)
                 | None \<Rightarrow>
                     (case dns_resource_record_new w1 k of
                        (None, w2) \<Rightarrow> (None, w2)
                      | (Some rr, w2) \<Rightarrow>
                          (Some (rr\<lparr>rr_data := data, rr_ttl := LLMNR_DEFAULT_TTL\<rparr>), w2))) of
             (None, w2) \<Rightarrow> (- ENOMEM, w2, Some k, sc, a)
           | (Some address_rr, w2) \<Rightarrow>
               (let a1 = a\<lparr>llmnr_address_rr := Some address_rr\<rparr> in
                case (case llmnr_ptr_rr a1 of
                        Some rr \<Rightarrow> (Inr rr, w2)
                      | None \<Rightarrow>
                          (case dns_resource_record_new_reverse w2 (a_family a1) (a_in_addr a1)
                                  name of
                             (Inl r, w3) \<Rightarrow> (Inl r, w3)
                           | (Inr rr, w3) \<Rightarrow> (Inr (rr\<lparr>rr_ttl := LLMNR_DEFAULT_TTL\<rparr>), w3))) of
                  (Inl r, w3) \<Rightarrow> (r, w3, Some k, sc, a1)
                | (Inr ptr_rr, w3) \<Rightarrow>
                    (let a2 = a1\<lparr>llmnr_ptr_rr := Some ptr_rr\<rparr> in
                     case zone_sync w3 sc a2 address_rr ptr_rr of (r, w4, sc') \<Rightarrow>
                       (r, w4, Some k, sc', a2)))))"

definition add_rrs_ipv4 ::
    "Manager \<Rightarrow> World \<Rightarrow> Link \<Rightarrow> LinkAddress \<Rightarrow> int \<times> Manager \<times> World \<times> Link \<times> LinkAddress" where
  "add_rrs_ipv4 m w l a =
     (case llmnr_ipv4_scope l of
        Some sc \<Rightarrow>
          if a_family a = AF_INET then
            (case add_rrs_block DNS_TYPE_A (RR_A (a_in_addr a)) (hostname m) w
                    (host_ipv4_key m) sc a of
               (r, w', k, sc', a') \<Rightarrow>
                 (r, m\<lparr>host_ipv4_key := k\<rparr>, w', l\<lparr>llmnr_ipv4_scope := Some sc'\<rparr>, a'))
          else (0, m, w, l, a)
      | None \<Rightarrow> (0, m, w, l, a))"

definition add_rrs_ipv6 ::
    "Manager \<Rightarrow> World \<Rightarrow> Link \<Rightarrow> LinkAddress \<Rightarrow> int \<times> Manager \<times> World \<times> Link \<times> LinkAddress" where
  "add_rrs_ipv6 m w l a =
     (case llmnr_ipv6_scope l of
        Some sc \<Rightarrow>
          if a_family a = AF_INET6 then
            (case add_rrs_block DNS_TYPE_AAAA (RR_AAAA (a_in_addr a)) (hostname m) w
                    (host_ipv6_key m) sc a of
               (r, w', k, sc', a') \<Rightarrow>
                 (r, m\<lparr>host_ipv6_key := k\<rparr>, w', l\<lparr>llmnr_ipv6_scope := Some sc'\<rparr>, a'))
          else (0, m, w, l, a)
      | None \<Rightarrow> (0, m, w, l, a))"

text \<open>
  \<open>l\<close> is the link that owns the address \<open>a\<close>; the function returns the manager, the
  link and the address as it leaves them.
\<close>

definition link_address_add_rrs ::
    "Manager \<Rightarrow> World \<Rightarrow> Link \<Rightarrow> LinkAddress \<Rightarrow> Manager \<times> World \<times> Link \<times> LinkAddress" where
  "link_address_add_rrs m w l a =
     (case add_rrs_ipv4 m w l a of (r, m1, w1, l1, a1) \<Rightarrow>
        if r < 0 then (m1, emit (LogDebug ''Failed to update address RRs'' r) w1, l1, a1)
        else
          (case add_rrs_ipv6 m1 w1 l1 a1 of (r, m2, w2, l2, a2) \<Rightarrow>
             if r < 0 then (m2, emit (LogDebug ''Failed to update address RRs'' r) w2, l2, a2)
             else (m2, w2, l2, a2)))"

text \<open>The \<open>LIST_FOREACH\<close> of \<open>link_add_rrs\<close> over the addresses of the link.\<close>

fun add_rrs_loop ::
    "Manager \<Rightarrow> World \<Rightarrow> Link \<Rightarrow> LinkAddress list \<Rightarrow>
     Manager \<times> World \<times> Link \<times> LinkAddress list" where
  "add_rrs_loop m w l [] = (m, w, l, [])"
| "add_rrs_loop m w l (a # as) =
     (case link_address_add_rrs m w l a of (m1, w1, l1, a1) \<Rightarrow>
      case add_rrs_loop m1 w1 l1 as of (m2, w2, l2, as2) \<Rightarrow> (m2, w2, l2, a1 # as2))"

definition link_add_rrs :: "Manager \<Rightarrow> World \<Rightarrow> Link \<Rightarrow> Manager \<times> World \<times> Link" where
  "link_add_rrs m w l =
     (case add_rrs_loop m w l (addresses l) of (m', w', l', as') \<Rightarrow>
        (m', w', l'\<lparr>addresses := as'\<rparr>))"

subsection \<open>Addresses and links: creation and destruction\<close>

definition link_address_new ::
    "World \<Rightarrow> Link \<Rightarrow> int \<Rightarrow> nat \<Rightarrow> int \<times> LinkAddress option \<times> Link \<times> World" where
  "link_address_new w l family in_addr =
     (case new0 w of
        (None, w') \<Rightarrow> (- ENOMEM, None, l, w')
      | (Some p, w') \<Rightarrow>
          (let a = \<lparr>a_ptr = p, a_family = family, a_in_addr = in_addr, a_flags = 0,
                     a_scope = 0, llmnr_address_rr = None, llmnr_ptr_rr = None\<rparr>
           in (0, Some a, l\<lparr>addresses := a # addresses l\<rparr>, w')))"












subsection \<open>Notifications and refresh\<close>

text \<open>
  Modelled from the spec: the notification decoder is not part of this file. Each field
  of an incoming message decodes to a return code and a value; a getter that fails
  (negative code) writes nothing to its out parameter.
\<close>

record sd_rtnl_message =
  msg_link_flags :: "int \<times> 32 word"
  msg_mtu :: "int \<times> 32 word"
  msg_ifname :: "int \<times> string"
  msg_addr_flags :: "int \<times> 8 word"
  msg_addr_scope :: "int \<times> 8 word"

definition link_update_rtnl ::
    "Env \<Rightarrow> Manager \<Rightarrow> World \<Rightarrow> Link \<Rightarrow> sd_rtnl_message \<Rightarrow> int \<times> Manager \<times> World \<times> Link" where
  "link_update_rtnl env m w l msg =
     (case msg_link_flags msg of (r, f) \<Rightarrow>
        if r < 0 then (r, m, w, l)
        else
          (let l1 = l\<lparr>l_flags := f\<rparr>;
               l2 = (case msg_mtu msg of (r, v) \<Rightarrow> if r < 0 then l1 else l1\<lparr>l_mtu := v\<rparr>);
               l3 = (case msg_ifname msg of (r, n) \<Rightarrow>
                       if r \<ge> 0 then l2\<lparr>l_name := take (IFNAMSIZ - 1) n\<rparr> else l2)
           in
             case link_allocate_scopes env m w l3 of (l4, w4) \<Rightarrow>
             case link_add_rrs m w4 l4 of (m5, w5, l5) \<Rightarrow> (0, m5, w5, l5)))"

definition link_update_monitor ::
    "Env \<Rightarrow> Manager \<Rightarrow> World \<Rightarrow> Link \<Rightarrow> int \<times> Manager \<times> World \<times> Link" where
  "link_update_monitor env m w l =
     (case link_update_dns_servers env w l of (_, l1, w1) \<Rightarrow>
      case link_allocate_scopes env m w1 l1 of (l2, w2) \<Rightarrow>
      case link_add_rrs m w2 l2 of (m3, w3, l3) \<Rightarrow> (0, m3, w3, l3))"

text \<open>
  \<open>link_address_update_rtnl\<close> on the address at \<open>p\<close> of the link \<open>l\<close>
  (\<open>a->link\<close>).
\<close>

definition address_update_fields :: "sd_rtnl_message \<Rightarrow> LinkAddress \<Rightarrow> LinkAddress" where
  "address_update_fields msg a =
     (let a1 = a\<lparr>a_flags := snd (msg_addr_flags msg)\<rparr> in
      case msg_addr_scope msg of (r, s) \<Rightarrow> if r < 0 then a1 else a1\<lparr>a_scope := s\<rparr>)"

definition link_address_update_rtnl ::
    "Env \<Rightarrow> Manager \<Rightarrow> World \<Rightarrow> Link \<Rightarrow> nat \<Rightarrow> sd_rtnl_message \<Rightarrow>
     int \<times> Manager \<times> World \<times> Link" where
  "link_address_update_rtnl env m w l p msg =
     (case msg_addr_flags msg of (r, f) \<Rightarrow>
        if r < 0 then (r, m, w, l)
        else
          (let l1 = l\<lparr>addresses :=
                      map (\<lambda>a. if a_ptr a = p then address_update_fields msg a else a)
                        (addresses l)\<rparr>
           in
             case link_allocate_scopes env m w l1 of (l2, w2) \<Rightarrow>
             case link_add_rrs m w2 l2 of (m3, w3, l3) \<Rightarrow> (0, m3, w3, l3)))"

subsection \<open>Notions used to state the properties\<close>

text \<open>A server entry is identified within its link by family and address value.\<close>

definition server_key :: "DnsServer \<Rightarrow> int \<times> nat" where
  "server_key s = (server_family s, server_address s)"

text \<open>The set of (family, value) pairs that a list of address strings reports.\<close>

definition reported_keys :: "Env \<Rightarrow> string list \<Rightarrow> (int \<times> nat) set" where
  "reported_keys env nameservers =
     set (map (\<lambda>n. snd (in_addr_from_string_auto env n)) nameservers)"

text \<open>
  The server list of a link is well formed: its entries are distinct heap objects,
  allocated before now, and no two of them have the same family and value.
\<close>

definition servers_wf :: "World \<Rightarrow> Link \<Rightarrow> bool" where
  "servers_wf w l =
     (distinct (map server_ptr (dns_servers l)) \<and>
      distinct (map server_key (dns_servers l)) \<and>
      list_all (\<lambda>s. server_ptr s < next_ptr w) (dns_servers l))"

text \<open>
  The common shape of the three blocks of \<open>link_allocate_scopes\<close>, as a function of the
  block's condition \<open>pre\<close> and the scope pointer \<open>cur\<close> it reconciles.
\<close>

definition scope_block ::
    "bool \<Rightarrow> DnsScope option \<Rightarrow> DnsProtocol \<Rightarrow> int \<Rightarrow> string \<Rightarrow> World \<Rightarrow>
     DnsScope option \<times> World" where
  "scope_block pre cur protocol family msg w =
     (if pre then
        (if cur = None then
           (case dns_scope_new w protocol family of
              (Inl r, w') \<Rightarrow> (None, emit (LogWarning msg r) w')
            | (Inr sc, w') \<Rightarrow> (Some sc, w'))
         else (cur, w))
      else dns_scope_free w cur)"

text \<open>
  The conditions under which the allocator wants each scope, and a link whose three
  scopes all match them.
\<close>

definition unicast_wanted :: "Link \<Rightarrow> bool" where
  "unicast_wanted l = (dns_servers l \<noteq> [])"

definition llmnr_wanted :: "Env \<Rightarrow> Manager \<Rightarrow> Link \<Rightarrow> int \<Rightarrow> bool" where
  "llmnr_wanted env m l family =
     (link_relevant env l family \<and> bit (l_flags l) 12 \<and> use_llmnr m)"

definition scopes_match :: "Env \<Rightarrow> Manager \<Rightarrow> Link \<Rightarrow> bool" where
  "scopes_match env m l =
     ((unicast_scope l \<noteq> None) = unicast_wanted l \<and>
      (llmnr_ipv4_scope l \<noteq> None) = llmnr_wanted env m l AF_INET \<and>
      (llmnr_ipv6_scope l \<noteq> None) = llmnr_wanted env m l AF_INET6)"

text \<open>
  What one reconciliation of a scope comes to, as the spec words it, from whether the
  scope is wanted, the scope \<open>cur\<close> the link has, the return code \<open>code\<close> of the
  allocation (if one is attempted) and the scope \<open>fresh\<close> a successful allocation
  yields: a wanted scope that is absent is allocated, and the failure reported; a wanted
  scope that is present is kept; an unwanted scope is released.
\<close>

definition outcome_at :: "World \<Rightarrow> nat \<Rightarrow> int" where
  "outcome_at w i = (if i < length (outcomes w) then outcomes w ! i else 0)"

definition attempts :: "bool \<Rightarrow> DnsScope option \<Rightarrow> nat" where
  "attempts wanted cur = (if wanted \<and> cur = None then 1 else 0)"

definition created :: "bool \<Rightarrow> DnsScope option \<Rightarrow> int \<Rightarrow> nat" where
  "created wanted cur code = (if wanted \<and> cur = None \<and> \<not> code < 0 then 1 else 0)"

definition reconciled_scope ::
    "bool \<Rightarrow> DnsScope option \<Rightarrow> int \<Rightarrow> DnsScope \<Rightarrow> DnsScope option" where
  "reconciled_scope wanted cur code fresh =
     (if wanted then
        (case cur of
           Some sc \<Rightarrow> Some sc
         | None \<Rightarrow> if code < 0 then None else Some fresh)
      else None)"

definition reconcile_events :: "bool \<Rightarrow> DnsScope option \<Rightarrow> int \<Rightarrow> string \<Rightarrow> event list" where
  "reconcile_events wanted cur code msg =
     (if wanted then (if cur = None \<and> code < 0 then [LogWarning msg code] else [])
      else (case cur of None \<Rightarrow> [] | Some sc \<Rightarrow> [ScopeFree (scope_ptr sc)]))"

text \<open>
  The calls that \<open>link_address_free\<close> makes for one record of an address: the record is
  withdrawn from the zone of the family's scope, if the link has that scope, and then the
  reference to it is dropped. \<open>scope\<close> is the address of that scope.
\<close>

definition family_scope :: "Link \<Rightarrow> int \<Rightarrow> nat option" where
  "family_scope l family =
     (if family = AF_INET then map_option scope_ptr (llmnr_ipv4_scope l)
      else if family = AF_INET6 then map_option scope_ptr (llmnr_ipv6_scope l)
      else None)"

definition record_release_events :: "nat option \<Rightarrow> DnsResourceRecord option \<Rightarrow> event list" where
  "record_release_events scope rr =
     (case rr of
        None \<Rightarrow> []
      | Some r \<Rightarrow>
          (case scope of None \<Rightarrow> [] | Some s \<Rightarrow> [ZoneRemove s (rr_ptr r)]) @
          [RecordUnref (rr_ptr r)])"

definition address_free_events :: "Link \<Rightarrow> LinkAddress \<Rightarrow> event list" where
  "address_free_events l a =
     record_release_events (family_scope l (a_family a)) (llmnr_address_rr a) @
     record_release_events (family_scope l (a_family a)) (llmnr_ptr_rr a) @
     [AddressFree (a_ptr a)]"

definition scope_free_events :: "DnsScope option \<Rightarrow> event list" where
  "scope_free_events s = (case s of None \<Rightarrow> [] | Some sc \<Rightarrow> [ScopeFree (scope_ptr sc)])"

text \<open>
  An address keeps its identity and its records: \<open>a'\<close> is the object \<open>a\<close> at a later
  time, with the same family and value, and each record that \<open>a\<close> had is the record
  that \<open>a'\<close> has.
\<close>

definition records_kept :: "LinkAddress \<Rightarrow> LinkAddress \<Rightarrow> bool" where
  "records_kept a a' =
     (a_ptr a' = a_ptr a \<and> a_family a' = a_family a \<and> a_in_addr a' = a_in_addr a \<and>
      (llmnr_address_rr a \<noteq> None \<longrightarrow> llmnr_address_rr a' = llmnr_address_rr a) \<and>
      (llmnr_ptr_rr a \<noteq> None \<longrightarrow> llmnr_ptr_rr a' = llmnr_ptr_rr a))"

text \<open>
  The triggers that reconcile a link: a link notification, a notification for the address
  at \<open>p\<close>, and a change reported by the network configuration monitor, each with the
  state of the configuration service at that time. A run of triggers threads the manager,
  the world and the link through them; the callers drop the return codes.
\<close>

datatype trigger =
    LinkNotification Env sd_rtnl_message
  | AddressNotification Env nat sd_rtnl_message
  | MonitorChange Env

fun apply_trigger :: "Manager \<times> World \<times> Link \<Rightarrow> trigger \<Rightarrow> Manager \<times> World \<times> Link" where
  "apply_trigger (m, w, l) (LinkNotification env msg) = snd (link_update_rtnl env m w l msg)"
| "apply_trigger (m, w, l) (AddressNotification env p msg) =
     snd (link_address_update_rtnl env m w l p msg)"
| "apply_trigger (m, w, l) (MonitorChange env) = snd (link_update_monitor env m w l)"

definition run_triggers :: "trigger list \<Rightarrow> Manager \<times> World \<times> Link \<Rightarrow> Manager \<times> World \<times> Link" where
  "run_triggers ts s = foldl apply_trigger s ts"

subsection \<open>A concrete link\<close>

text \<open>
  Link 5 with the servers 203.0.113.1 and 203.0.113.2 (addresses as numbers), an IPv4
  address 192.0.2.7 of global scope and a deprecated IPv6 address; the network
  configuration reports the state routable and the servers 203.0.113.2 and 203.0.113.3.
\<close>

definition example_parse :: "string \<Rightarrow> int \<times> int \<times> nat" where
  "example_parse s =
     (if s = ''203.0.113.1'' then (0, AF_INET, 3405803777)
      else if s = ''203.0.113.2'' then (0, AF_INET, 3405803778)
      else if s = ''203.0.113.3'' then (0, AF_INET, 3405803779)
      else (- 22, 0, 0))"

definition example_env :: Env where
  "example_env =
     \<lparr>sd_network_get_dns = (\<lambda>i. (2, [''203.0.113.2'', ''203.0.113.3''])),
      sd_network_get_link_operational_state = (\<lambda>i. Some ''routable''),
      in_addr_from_string_auto = example_parse\<rparr>"

text \<open>The same configuration service when it reports a string that does not parse.\<close>

definition example_env_bad :: Env where
  "example_env_bad =
     example_env\<lparr>sd_network_get_dns := (\<lambda>i. (2, [''203.0.113.3'', ''bogus'']))\<rparr>"

definition example_server1 :: DnsServer where
  "example_server1 =
     \<lparr>server_ptr = 11, server_family = AF_INET, server_address = 3405803777,
      marked = False\<rparr>"

definition example_server2 :: DnsServer where
  "example_server2 =
     \<lparr>server_ptr = 12, server_family = AF_INET, server_address = 3405803778,
      marked = False\<rparr>"

definition example_address4 :: LinkAddress where
  "example_address4 =
     \<lparr>a_ptr = 21, a_family = AF_INET, a_in_addr = 3221225991, a_flags = 0, a_scope = 0,
      llmnr_address_rr = None, llmnr_ptr_rr = None\<rparr>"

definition example_address6 :: LinkAddress where
  "example_address6 =
     \<lparr>a_ptr = 22, a_family = AF_INET6, a_in_addr = 1, a_flags = 0x20, a_scope = 0,
      llmnr_address_rr = None, llmnr_ptr_rr = None\<rparr>"

definition example_link :: Link where
  "example_link =
     \<lparr>link_ptr = 10, has_manager = True, ifindex = 5, l_flags = 0x1043,
      addresses = [example_address4, example_address6],
      dns_servers = [example_server1, example_server2], current_dns_server = None,
      unicast_scope = None, llmnr_ipv4_scope = None, llmnr_ipv6_scope = None,
      l_name = ''eth0'', l_mtu = 1500\<rparr>"

definition example_manager :: Manager where
  "example_manager =
     \<lparr>links = Some [5 \<mapsto> 10], use_llmnr = True, hostname = ''host'',
      host_ipv4_key = None, host_ipv6_key = None\<rparr>"

definition example_world :: World where
  "example_world = \<lparr>next_ptr = 100, outcomes = [], events = []\<rparr>"

section \<open>Properties\<close>

subsection \<open>Relevance\<close>

lemma deprecated_bit: "(x AND IFA_F_DEPRECATED \<noteq> 0) = bit x 5" for x :: "8 word"
proof -
  have "IFA_F_DEPRECATED = (2 ^ 5 :: 8 word)" by (simp add: IFA_F_DEPRECATED_def)
  then show ?thesis using and_exp_eq_0_iff_not_bit [of x 5] by simp
qed

lemma loopback_bit: "(x AND IFF_LOOPBACK \<noteq> 0) = bit x 3" for x :: "32 word"
proof -
  have "IFF_LOOPBACK = (2 ^ 3 :: 32 word)" by (simp add: IFF_LOOPBACK_def)
  then show ?thesis using and_exp_eq_0_iff_not_bit [of x 3] by simp
qed

lemma multicast_bit: "(x AND IFF_MULTICAST \<noteq> 0) = bit x 12" for x :: "32 word"
proof -
  have "IFF_MULTICAST = (2 ^ 12 :: 32 word)" by (simp add: IFF_MULTICAST_def)
  then show ?thesis using and_exp_eq_0_iff_not_bit [of x 12] by simp
qed

lemma any_relevant_address_iff:
  "any_relevant_address as family =
     (\<exists>a \<in> set as. a_family a = family \<and> link_address_relevant a)"
  by (induction as) auto

text \<open>
  C4. \<open>link_relevant\<close> is false for a loopback link, false when the reported operational
  state is none of unknown, degraded, routable (no reported state passes), and otherwise
  true iff some owned address of the family is relevant; \<open>link_address_relevant\<close> is
  false iff the deprecated flag is set or the routing scope is host or nowhere. Both are
  functions of the current state alone.
\<close>

theorem relevance_predicates:
  "link_relevant env l family =
     (\<not> bit (l_flags l) 3 \<and>
      (case sd_network_get_link_operational_state env (ifindex l) of
         None \<Rightarrow> True
       | Some state \<Rightarrow> state \<in> {''unknown'', ''degraded'', ''routable''}) \<and>
      (\<exists>a \<in> set (addresses l). a_family a = family \<and> link_address_relevant a))
   \<and> link_address_relevant a =
     (\<not> (bit (a_flags a) 5 \<or> a_scope a = 254 \<or> a_scope a = 255))"
proof
  show "link_relevant env l family =
     (\<not> bit (l_flags l) 3 \<and>
      (case sd_network_get_link_operational_state env (ifindex l) of
         None \<Rightarrow> True
       | Some state \<Rightarrow> state \<in> {''unknown'', ''degraded'', ''routable''}) \<and>
      (\<exists>a \<in> set (addresses l). a_family a = family \<and> link_address_relevant a))"
  proof (cases "sd_network_get_link_operational_state env (ifindex l)")
    case None
    then show ?thesis
      by (simp add: link_relevant_def loopback_bit any_relevant_address_iff)
  next
    case (Some state)
    then show ?thesis
      by (simp add: link_relevant_def loopback_bit any_relevant_address_iff)
  qed
  show "link_address_relevant a =
     (\<not> (bit (a_flags a) 5 \<or> a_scope a = 254 \<or> a_scope a = 255))"
    unfolding link_address_relevant_def deprecated_bit
    by (simp add: RT_SCOPE_HOST_def RT_SCOPE_NOWHERE_def)
qed

subsection \<open>The server cursor\<close>

lemma servers_next_nth:
  "distinct (map server_ptr ss) \<Longrightarrow> i < length ss \<Longrightarrow>
   servers_next ss (server_ptr (ss ! i)) =
     (if Suc i < length ss then Some (server_ptr (ss ! Suc i)) else None)"
proof (induction ss arbitrary: i)
  case Nil
  then show ?case by simp
next
  case (Cons s ss)
  show ?case
  proof (cases i)
    case 0
    then show ?thesis by (cases ss) (simp_all add: servers_head_def)
  next
    case (Suc j)
    with Cons.prems have j: "j < length ss" and d: "distinct (map server_ptr ss)"
      and "server_ptr s \<notin> server_ptr ` set ss" by auto
    then have "server_ptr s \<noteq> server_ptr (ss ! j)" by (metis imageI nth_mem)
    with Cons.IH [OF d j] Suc show ?thesis by simp
  qed
qed

lemma link_next_dns_server_servers [simp]:
  "dns_servers (link_next_dns_server l) = dns_servers l"
  by (simp add: link_next_dns_server_def split: option.splits)

lemma link_next_funpow_servers [simp]:
  "dns_servers ((link_next_dns_server ^^ k) l) = dns_servers l"
  by (induction k) simp_all

lemma link_next_null:
  "current_dns_server l = None \<Longrightarrow>
   current_dns_server (link_next_dns_server l) = servers_head (dns_servers l)"
  by (simp add: link_next_dns_server_def)

lemma link_next_at:
  assumes "distinct (map server_ptr (dns_servers l))" and "i < length (dns_servers l)"
    and "current_dns_server l = Some (server_ptr (dns_servers l ! i))"
  shows "current_dns_server (link_next_dns_server l) =
     Some (server_ptr (dns_servers l ! (if Suc i < length (dns_servers l) then Suc i else 0)))"
proof -
  from assms(2) obtain s ss where ss: "dns_servers l = s # ss" by (cases "dns_servers l") auto
  show ?thesis
    using servers_next_nth [OF assms(1,2)] assms(3) ss
    by (simp add: link_next_dns_server_def servers_head_def)
qed

lemma link_next_funpow:
  assumes "distinct (map server_ptr (dns_servers l))" and "dns_servers l \<noteq> []"
    and "current_dns_server l = None"
  shows "current_dns_server ((link_next_dns_server ^^ Suc k) l) =
     Some (server_ptr (dns_servers l ! (k mod length (dns_servers l))))"
proof (induction k)
  case 0
  from assms(2) obtain s ss where "dns_servers l = s # ss" by (cases "dns_servers l") auto
  with assms(3) show ?case by (simp add: link_next_dns_server_def servers_head_def)
next
  case (Suc k)
  let ?n = "length (dns_servers l)"
  let ?l = "(link_next_dns_server ^^ Suc k) l"
  have n: "0 < ?n" using assms(2) by simp
  have i: "k mod ?n < length (dns_servers ?l)" using n by simp
  have d: "distinct (map server_ptr (dns_servers ?l))" using assms(1) by simp
  have c: "current_dns_server ?l = Some (server_ptr (dns_servers ?l ! (k mod ?n)))"
    using Suc.IH by simp
  have "k mod ?n < ?n" using n by simp
  then have "(if Suc (k mod ?n) < ?n then Suc (k mod ?n) else 0) = Suc k mod ?n"
    by (auto simp: mod_Suc)
  with link_next_at [OF d i c] show ?case by simp
qed

text \<open>
  C5. With a null cursor \<open>link_next_dns_server\<close> sets the cursor to the list head and
  goes no further; with a cursor on the entry at position \<open>i\<close> it moves to the next entry
  if there is one, else wraps to the head. So with N \<ge> 1 servers and a null cursor, N + 1
  successive calls visit each server once, in list order, and then the first again. The
  entries are distinct heap objects.
\<close>

theorem round_robin_cursor:
  assumes "distinct (map server_ptr (dns_servers l))"
  shows "(current_dns_server l = None \<longrightarrow>
            current_dns_server (link_next_dns_server l) = servers_head (dns_servers l))
       \<and> (\<forall>i < length (dns_servers l).
            current_dns_server l = Some (server_ptr (dns_servers l ! i)) \<longrightarrow>
            current_dns_server (link_next_dns_server l) =
              Some (server_ptr (dns_servers l !
                (if Suc i < length (dns_servers l) then Suc i else 0))))
       \<and> dns_servers (link_next_dns_server l) = dns_servers l
       \<and> (current_dns_server l = None \<and> dns_servers l \<noteq> [] \<longrightarrow>
            map (\<lambda>k. current_dns_server ((link_next_dns_server ^^ k) l))
                [1 ..< length (dns_servers l) + 2] =
            map (\<lambda>s. Some (server_ptr s)) (dns_servers l @ [hd (dns_servers l)]))"
proof (intro conjI allI impI)
  assume "current_dns_server l = None"
  then show "current_dns_server (link_next_dns_server l) = servers_head (dns_servers l)"
    by (rule link_next_null)
next
  fix i
  assume "i < length (dns_servers l)"
    and "current_dns_server l = Some (server_ptr (dns_servers l ! i))"
  with assms show "current_dns_server (link_next_dns_server l) =
      Some (server_ptr (dns_servers l ! (if Suc i < length (dns_servers l) then Suc i else 0)))"
    by (rule link_next_at)
next
  show "dns_servers (link_next_dns_server l) = dns_servers l" by simp
next
  assume a: "current_dns_server l = None \<and> dns_servers l \<noteq> []"
  let ?ss = "dns_servers l"
  let ?n = "length ?ss"
  have n: "Suc 0 \<le> ?n" using a by (cases "dns_servers l") simp_all
  show "map (\<lambda>k. current_dns_server ((link_next_dns_server ^^ k) l)) [1 ..< ?n + 2] =
        map (\<lambda>s. Some (server_ptr s)) (?ss @ [hd ?ss])"
  proof (rule nth_equalityI)
    show "length (map (\<lambda>k. current_dns_server ((link_next_dns_server ^^ k) l)) [1 ..< ?n + 2]) =
          length (map (\<lambda>s. Some (server_ptr s)) (?ss @ [hd ?ss]))"
      by (simp del: upt_Suc)
  next
    fix j
    assume "j < length (map (\<lambda>k. current_dns_server ((link_next_dns_server ^^ k) l)) [1 ..< ?n + 2])"
    then have j: "j < ?n + 1" by (simp del: upt_Suc)
    then have "[1 ..< ?n + 2] ! j = Suc j" by (simp del: upt_Suc)
    with j have lhs: "map (\<lambda>k. current_dns_server ((link_next_dns_server ^^ k) l)) [1 ..< ?n + 2] ! j =
        Some (server_ptr (?ss ! (j mod ?n)))"
      using link_next_funpow [OF assms, of j] a by (simp del: upt_Suc funpow.simps)
    have rhs: "(?ss @ [hd ?ss]) ! j = ?ss ! (j mod ?n)"
    proof (cases "j < ?n")
      case True
      then show ?thesis by (simp add: nth_append)
    next
      case False
      with j have "j = ?n" by simp
      then show ?thesis using a by (simp add: nth_append hd_conv_nth)
    qed
    from j have "map (\<lambda>s. Some (server_ptr s)) (?ss @ [hd ?ss]) ! j =
        Some (server_ptr ((?ss @ [hd ?ss]) ! j))" by (intro nth_map) simp
    with lhs rhs show "map (\<lambda>k. current_dns_server ((link_next_dns_server ^^ k) l)) [1 ..< ?n + 2] ! j =
        map (\<lambda>s. Some (server_ptr s)) (?ss @ [hd ?ss]) ! j" by simp
  qed
qed


theorem relevance_predicates_witness:
  "link_relevant example_env example_link AF_INET
   \<and> \<not> link_relevant example_env example_link AF_INET6
   \<and> \<not> link_address_relevant example_address6"
proof -
  have a4: "link_address_relevant example_address4"
    using relevance_predicates [of example_env example_link AF_INET example_address4]
    by (simp add: example_address4_def)
  have a6: "\<not> link_address_relevant example_address6"
    using relevance_predicates [of example_env example_link AF_INET example_address6]
    by (simp add: example_address6_def)
  have f4: "a_family example_address4 = AF_INET" "a_family example_address6 = AF_INET6"
    by (simp_all add: example_address4_def example_address6_def)
  have l: "addresses example_link = [example_address4, example_address6]"
    "l_flags example_link = 0x1043" "ifindex example_link = 5"
    by (simp_all add: example_link_def)
  have e: "sd_network_get_link_operational_state example_env 5 = Some ''routable''"
    by (simp add: example_env_def)
  show ?thesis
    using relevance_predicates [of example_env example_link AF_INET example_address6]
      relevance_predicates [of example_env example_link AF_INET6 example_address6]
    by (simp add: l e a4 a6 f4 AF_INET_def AF_INET6_def)
qed

theorem round_robin_cursor_witness:
  "map (\<lambda>k. current_dns_server ((link_next_dns_server ^^ k) example_link)) [1, 2, 3] =
     [Some 11, Some 12, Some 11]"
proof -
  have s: "dns_servers example_link = [example_server1, example_server2]"
    "current_dns_server example_link = None"
    by (simp_all add: example_link_def)
  have p: "server_ptr example_server1 = 11" "server_ptr example_server2 = 12"
    by (simp_all add: example_server1_def example_server2_def)
  have d: "distinct (map server_ptr (dns_servers example_link))"
    by (simp add: s p)
  have u: "[1 ..< length (dns_servers example_link) + 2] = [1, 2, 3]"
    by (simp add: s upt_rec)
  show ?thesis
    using round_robin_cursor [OF d] unfolding u
    by (simp add: s p del: funpow.simps)
qed

subsection \<open>Reconciling the DNS server list\<close>

lemma server_key_marked [simp]: "server_key (s\<lparr>marked := b\<rparr>) = server_key s"
  by (simp add: server_key_def)

lemma find_dns_server_Some:
  "find_dns_server ss f a = Some s \<Longrightarrow> s \<in> set ss \<and> server_key s = (f, a)"
  by (induction ss) (auto simp: in_addr_equal_def server_key_def split: if_splits)

lemma find_dns_server_None:
  "(find_dns_server ss f a = None) = ((f, a) \<notin> server_key ` set ss)"
  by (induction ss) (auto simp: in_addr_equal_def server_key_def)

lemma unmark_by_key:
  assumes "distinct (map server_ptr ss)" and "distinct (map server_key ss)" and "s \<in> set ss"
  shows "unmark (server_ptr s) ss =
     map (\<lambda>t. if server_key t = server_key s then t\<lparr>marked := False\<rparr> else t) ss"
proof -
  have "inj_on server_ptr (set ss)" and "inj_on server_key (set ss)"
    using assms(1,2) by (simp_all add: distinct_map)
  then have "\<forall>t \<in> set ss. (server_ptr t = server_ptr s) = (server_key t = server_key s)"
    using assms(3) by (auto dest: inj_onD)
  then show ?thesis by (simp add: unmark_def)
qed

lemma next_outcome_fields:
  "next_outcome w = (r, w') \<Longrightarrow> next_ptr w' = next_ptr w \<and> events w' = events w"
  by (auto simp: next_outcome_def split: list.splits)

lemma new0_Some:
  "new0 w = (Some p, w') \<Longrightarrow>
     p = next_ptr w \<and> next_ptr w' = Suc (next_ptr w) \<and> events w' = events w"
  by (auto simp: new0_def split: prod.splits if_splits dest: next_outcome_fields)

lemma new0_None:
  "new0 w = (None, w') \<Longrightarrow> next_ptr w' = next_ptr w \<and> events w' = events w"
  by (auto simp: new0_def split: prod.splits if_splits dest: next_outcome_fields)

lemma next_outcome_cases:
  "next_outcome w = (r, w') \<Longrightarrow>
     (outcomes w = [] \<and> r = 0 \<and> w' = w) \<or> (\<exists>rs. outcomes w = r # rs \<and> w' = w\<lparr>outcomes := rs\<rparr>)"
  by (auto simp: next_outcome_def split: list.splits)

lemma next_outcome_ok:
  assumes "\<forall>r \<in> set (outcomes w). \<not> r < 0" and "next_outcome w = (r, w')"
  shows "\<not> r < 0 \<and> (\<forall>r \<in> set (outcomes w'). \<not> r < 0) \<and> events w' = events w \<and>
    next_ptr w' = next_ptr w"
  using next_outcome_cases [OF assms(2)] assms(1) by auto

lemma new0_ok:
  assumes "\<forall>r \<in> set (outcomes w). \<not> r < 0" and "new0 w = (po, w')"
  shows "po = Some (next_ptr w) \<and> (\<forall>r \<in> set (outcomes w'). \<not> r < 0)"
proof -
  obtain r0 w0 where n: "next_outcome w = (r0, w0)" by (cases "next_outcome w") auto
  from next_outcome_ok [OF assms(1) n] assms(2) n show ?thesis
    by (auto simp: new0_def)
qed

lemma new0_events: "new0 w = (po, w') \<Longrightarrow> events w' = events w"
  by (cases po) (auto dest: new0_Some new0_None)

lemma dns_server_new_cases:
  assumes "dns_server_new w l f a = (r, l', w')"
  shows "events w' = events w \<and>
     ((r = - ENOMEM \<and> l' = l \<and> next_ptr w' = next_ptr w) \<or>
      (r = 0 \<and> next_ptr w' = Suc (next_ptr w) \<and>
       l' = l\<lparr>dns_servers := dns_servers l @
              [\<lparr>server_ptr = next_ptr w, server_family = f, server_address = a,
                marked = False\<rparr>]\<rparr>))"
proof (cases "new0 w")
  case (Pair po w1)
  show ?thesis
  proof (cases po)
    case None
    with Pair assms new0_None [of w w1] show ?thesis by (simp add: dns_server_new_def)
  next
    case (Some p)
    with Pair assms new0_Some [of w p w1] show ?thesis by (auto simp: dns_server_new_def)
  qed
qed


lemma servers_wf_map_marked:
  "(\<And>s. server_ptr (g s) = server_ptr s \<and> server_key (g s) = server_key s) \<Longrightarrow>
   servers_wf w l \<Longrightarrow> servers_wf w (l\<lparr>dns_servers := map g (dns_servers l)\<rparr>)"
  by (simp add: servers_wf_def list_all_iff comp_def)

lemma update_loop_char:
  assumes "servers_wf w l"
    and "update_dns_servers_loop env w l nss = (r, l', w')"
    and "\<not> r < 0"
  shows "r = 0 \<and> (\<forall>ns \<in> set nss. \<not> fst (in_addr_from_string_auto env ns) < 0) \<and>
     (\<exists>news. dns_servers l' =
          map (\<lambda>s. if server_key s \<in> reported_keys env nss then s\<lparr>marked := False\<rparr> else s)
            (dns_servers l) @ news
        \<and> server_key ` set news = reported_keys env nss - server_key ` set (dns_servers l)
        \<and> (\<forall>n \<in> set news. \<not> marked n \<and> next_ptr w \<le> server_ptr n))
     \<and> servers_wf w' l' \<and> l' = l\<lparr>dns_servers := dns_servers l'\<rparr> \<and> events w' = events w
     \<and> next_ptr w \<le> next_ptr w'"
  using assms
proof (induction nss arbitrary: l w)
  case Nil
  then show ?case by (auto simp: reported_keys_def)
next
  case (Cons ns rest)
  obtain r0 f a where p: "in_addr_from_string_auto env ns = (r0, f, a)"
    by (cases "in_addr_from_string_auto env ns") auto
  have r0: "\<not> r0 < 0"
  proof
    assume "r0 < 0"
    with Cons.prems(2) p have "r = r0" by simp
    with \<open>r0 < 0\<close> Cons.prems(3) show False by simp
  qed
  let ?K = "reported_keys env rest"
  have K: "reported_keys env (ns # rest) = insert (f, a) ?K"
    by (simp add: reported_keys_def p)
  have wf: "distinct (map server_ptr (dns_servers l))" "distinct (map server_key (dns_servers l))"
    "\<forall>s \<in> set (dns_servers l). server_ptr s < next_ptr w"
    using Cons.prems(1) by (simp_all add: servers_wf_def list_all_iff)
  show ?case
  proof (cases "find_dns_server (dns_servers l) f a")
    case (Some s)
    then have s: "s \<in> set (dns_servers l)" "server_key s = (f, a)"
      by (auto dest: find_dns_server_Some)
    let ?h = "\<lambda>t. if server_key t = (f, a) then t\<lparr>marked := False\<rparr> else t"
    let ?l1 = "l\<lparr>dns_servers := map ?h (dns_servers l)\<rparr>"
    have um: "unmark (server_ptr s) (dns_servers l) = map ?h (dns_servers l)"
      using unmark_by_key [OF wf(1,2) s(1)] s(2) by simp
    have run1: "update_dns_servers_loop env w ?l1 rest = (r, l', w')"
      using Cons.prems(2) p r0 Some um by (simp add: link_find_dns_server_def)
    have wf1: "servers_wf w ?l1"
      by (rule servers_wf_map_marked [OF _ Cons.prems(1)]) simp
    from Cons.IH [OF wf1 run1 Cons.prems(3)]
    obtain news where ih: "r = 0" "\<forall>ns \<in> set rest. \<not> fst (in_addr_from_string_auto env ns) < 0"
      "dns_servers l' =
         map (\<lambda>s. if server_key s \<in> ?K then s\<lparr>marked := False\<rparr> else s) (dns_servers ?l1) @ news"
      "server_key ` set news = ?K - server_key ` set (dns_servers ?l1)"
      "\<forall>n \<in> set news. \<not> marked n \<and> next_ptr w \<le> server_ptr n"
      "servers_wf w' l'" "l' = ?l1\<lparr>dns_servers := dns_servers l'\<rparr>" "events w' = events w"
      "next_ptr w \<le> next_ptr w'"
      by blast
    have m: "map (\<lambda>s. if server_key s \<in> ?K then s\<lparr>marked := False\<rparr> else s) (dns_servers ?l1) =
        map (\<lambda>s. if server_key s \<in> insert (f, a) ?K then s\<lparr>marked := False\<rparr> else s) (dns_servers l)"
      by simp
    have "map server_key (dns_servers ?l1) = map server_key (dns_servers l)"
      by simp
    then have "set (map server_key (dns_servers ?l1)) = set (map server_key (dns_servers l))"
      by (rule arg_cong)
    then have keys1: "server_key ` set (dns_servers ?l1) = server_key ` set (dns_servers l)"
      by (simp only: set_map)
    have k_in: "(f, a) \<in> server_key ` set (dns_servers l)"
      using s by (metis imageI)
    have nk: "server_key ` set news = insert (f, a) ?K - server_key ` set (dns_servers l)"
      using ih(4) keys1 k_in by auto
    have l'eq: "l' = l\<lparr>dns_servers := dns_servers l'\<rparr>"
      using ih(7) by simp
    show ?thesis
      unfolding K using ih(1,2,5,6,8,9) ih(3) [unfolded m] nk l'eq p r0 by auto
  next
    case None
    then have k_out: "(f, a) \<notin> server_key ` set (dns_servers l)"
      by (simp add: find_dns_server_None)
    obtain r1 l1 w1 where n: "dns_server_new w l f a = (r1, l1, w1)"
      by (cases "dns_server_new w l f a") auto
    have r1: "\<not> r1 < 0"
    proof
      assume "r1 < 0"
      with Cons.prems(2) p r0 None n have "r = r1" by (simp add: link_find_dns_server_def)
      with \<open>r1 < 0\<close> Cons.prems(3) show False by simp
    qed
    let ?n = "\<lparr>server_ptr = next_ptr w, server_family = f, server_address = a, marked = False\<rparr>"
    have new: "events w1 = events w" "next_ptr w1 = Suc (next_ptr w)"
      "l1 = l\<lparr>dns_servers := dns_servers l @ [?n]\<rparr>"
      using dns_server_new_cases [OF n] r1 by (auto simp: ENOMEM_def)
    have run1: "update_dns_servers_loop env w1 l1 rest = (r, l', w')"
      using Cons.prems(2) p r0 None n r1 by (simp add: link_find_dns_server_def)
    have kn: "server_key ?n = (f, a)" by (simp add: server_key_def)
    have wf1: "servers_wf w1 l1"
      using wf k_out kn new by (auto simp: servers_wf_def list_all_iff)
    from Cons.IH [OF wf1 run1 Cons.prems(3)]
    obtain news where ih: "r = 0" "\<forall>ns \<in> set rest. \<not> fst (in_addr_from_string_auto env ns) < 0"
      "dns_servers l' =
         map (\<lambda>s. if server_key s \<in> ?K then s\<lparr>marked := False\<rparr> else s) (dns_servers l1) @ news"
      "server_key ` set news = ?K - server_key ` set (dns_servers l1)"
      "\<forall>n \<in> set news. \<not> marked n \<and> next_ptr w1 \<le> server_ptr n"
      "servers_wf w' l'" "l' = l1\<lparr>dns_servers := dns_servers l'\<rparr>" "events w' = events w1"
      "next_ptr w1 \<le> next_ptr w'"
      by blast
    have old: "map (\<lambda>s. if server_key s \<in> ?K then s\<lparr>marked := False\<rparr> else s) (dns_servers l) =
        map (\<lambda>s. if server_key s \<in> insert (f, a) ?K then s\<lparr>marked := False\<rparr> else s) (dns_servers l)"
    proof (rule map_cong [OF refl])
      fix x assume "x \<in> set (dns_servers l)"
      with k_out have "server_key x \<noteq> (f, a)" by (metis imageI)
      then show "(if server_key x \<in> ?K then x\<lparr>marked := False\<rparr> else x) =
          (if server_key x \<in> insert (f, a) ?K then x\<lparr>marked := False\<rparr> else x)"
        by simp
    qed
    have nn: "(if server_key ?n \<in> ?K then ?n\<lparr>marked := False\<rparr> else ?n) = ?n" by simp
    have d: "dns_servers l' =
        map (\<lambda>s. if server_key s \<in> insert (f, a) ?K then s\<lparr>marked := False\<rparr> else s) (dns_servers l)
          @ (?n # news)"
      using ih(3) old nn by (simp add: new(3))
    have nk: "server_key ` set (?n # news) = insert (f, a) ?K - server_key ` set (dns_servers l)"
      using ih(4) k_out kn by (auto simp: new(3))
    have fresh: "\<forall>n \<in> set (?n # news). \<not> marked n \<and> next_ptr w \<le> server_ptr n"
      using ih(5) new(2) by auto
    have l'eq: "l' = l\<lparr>dns_servers := dns_servers l'\<rparr>"
      using ih(7) by (simp add: new(3))
    have "\<exists>news. dns_servers l' =
          map (\<lambda>s. if server_key s \<in> insert (f, a) ?K then s\<lparr>marked := False\<rparr> else s)
            (dns_servers l) @ news
        \<and> server_key ` set news = insert (f, a) ?K - server_key ` set (dns_servers l)
        \<and> (\<forall>n \<in> set news. \<not> marked n \<and> next_ptr w \<le> server_ptr n)"
      using d nk fresh by blast
    then show ?thesis
      unfolding K using ih(1,2,6,8,9) l'eq p r0 new(1,2) by auto
  qed
qed

lemma update_loop_general:
  "update_dns_servers_loop env w l nss = (r, l', w') \<Longrightarrow>
     server_ptr ` set (dns_servers l) \<subseteq> server_ptr ` set (dns_servers l') \<and>
     events w' = events w \<and> (r = 0 \<or> r < 0) \<and>
     (r < 0 \<longrightarrow> (\<exists>ns \<in> set nss. r = fst (in_addr_from_string_auto env ns)) \<or> r = - ENOMEM) \<and>
     ((\<exists>ns \<in> set nss. fst (in_addr_from_string_auto env ns) < 0) \<longrightarrow> r < 0)"
proof (induction nss arbitrary: l w)
  case Nil
  then show ?case by simp
next
  case (Cons ns rest)
  obtain r0 f a where p: "in_addr_from_string_auto env ns = (r0, f, a)"
    by (cases "in_addr_from_string_auto env ns") auto
  show ?case
  proof (cases "r0 < 0")
    case True
    with Cons.prems p show ?thesis by auto
  next
    case r0: False
    show ?thesis
    proof (cases "find_dns_server (dns_servers l) f a")
      case (Some s)
      let ?l1 = "l\<lparr>dns_servers := unmark (server_ptr s) (dns_servers l)\<rparr>"
      have run1: "update_dns_servers_loop env w ?l1 rest = (r, l', w')"
        using Cons.prems p r0 Some by (simp add: link_find_dns_server_def)
      have "map server_ptr (dns_servers ?l1) = map server_ptr (dns_servers l)"
        by (simp add: unmark_def)
      then have "set (map server_ptr (dns_servers ?l1)) = set (map server_ptr (dns_servers l))"
        by (rule arg_cong)
      then have ptrs: "server_ptr ` set (dns_servers ?l1) = server_ptr ` set (dns_servers l)"
        by (simp only: set_map)
      from Cons.IH [OF run1] ptrs p r0 show ?thesis by auto
    next
      case None
      obtain r1 l1 w1 where n: "dns_server_new w l f a = (r1, l1, w1)"
        by (cases "dns_server_new w l f a") auto
      note c = dns_server_new_cases [OF n]
      show ?thesis
      proof (cases "r1 < 0")
        case True
        with Cons.prems p r0 None n have "r = r1" "l' = l1" "w' = w1"
          by (simp_all add: link_find_dns_server_def)
        with c True p r0 show ?thesis by (auto simp: ENOMEM_def)
      next
        case False
        with Cons.prems p r0 None n
        have run1: "update_dns_servers_loop env w1 l1 rest = (r, l', w')"
          by (simp add: link_find_dns_server_def)
        from c False have "server_ptr ` set (dns_servers l) \<subseteq> server_ptr ` set (dns_servers l1)"
          and "events w1 = events w" by (auto simp: ENOMEM_def)
        with Cons.IH [OF run1] p r0 show ?thesis by auto
      qed
    qed
  qed
qed

lemma dns_server_free_fields:
  "dns_server_free w l p = (l', w') \<Longrightarrow>
     dns_servers l' = filter (\<lambda>s. server_ptr s \<noteq> p) (dns_servers l) \<and>
     current_dns_server l' = (if current_dns_server l = Some p then None else current_dns_server l) \<and>
     l' = l\<lparr>dns_servers := dns_servers l', current_dns_server := current_dns_server l'\<rparr> \<and>
     w' = w\<lparr>events := events w @ [ServerFree p]\<rparr>"
  by (auto simp: dns_server_free_def emit_def)

lemma clear_dns_servers_char:
  "clear_dns_servers w l = (l', w') \<Longrightarrow>
     dns_servers l' = [] \<and>
     l' = l\<lparr>dns_servers := [], current_dns_server := current_dns_server l'\<rparr> \<and>
     (\<forall>p. current_dns_server l' = Some p \<longrightarrow>
        current_dns_server l = Some p \<and> p \<notin> server_ptr ` set (dns_servers l)) \<and>
     (\<exists>ps. w' = w\<lparr>events := events w @ map ServerFree ps\<rparr> \<and>
        set ps = server_ptr ` set (dns_servers l))"
proof (induction w l arbitrary: l' w' rule: clear_dns_servers.induct)
  case (1 w l)
  show ?case
  proof (cases "dns_servers l")
    case Nil
    with "1.prems" have "l' = l" "w' = w" by (simp_all add: clear_dns_servers.simps [of w l])
    with Nil show ?thesis by (auto intro: exI [of _ "[]"])
  next
    case (Cons s ss)
    obtain l1 w1 where f: "dns_server_free w l (server_ptr s) = (l1, w1)"
      by (cases "dns_server_free w l (server_ptr s)") auto
    with "1.prems" Cons have run1: "clear_dns_servers w1 l1 = (l', w')"
      by (simp add: clear_dns_servers.simps [of w l])
    note ff = dns_server_free_fields [OF f]
    from "1.IH" [OF Cons f [symmetric] run1]
    obtain ps where ih: "dns_servers l' = []"
      "l' = l1\<lparr>dns_servers := [], current_dns_server := current_dns_server l'\<rparr>"
      "\<forall>p. current_dns_server l' = Some p \<longrightarrow>
        current_dns_server l1 = Some p \<and> p \<notin> server_ptr ` set (dns_servers l1)"
      "w' = w1\<lparr>events := events w1 @ map ServerFree ps\<rparr>"
      "set ps = server_ptr ` set (dns_servers l1)"
      by blast
    have l': "l' = l\<lparr>dns_servers := [], current_dns_server := current_dns_server l'\<rparr>"
    proof -
      from ff have "\<exists>A B. l1 = l\<lparr>dns_servers := A, current_dns_server := B\<rparr>" by blast
      then obtain A B where "l1 = l\<lparr>dns_servers := A, current_dns_server := B\<rparr>" by blast
      with ih(2) show ?thesis by simp
    qed
    have cur: "\<forall>p. current_dns_server l' = Some p \<longrightarrow>
        current_dns_server l = Some p \<and> p \<notin> server_ptr ` set (dns_servers l)"
      using ih(3) ff by (auto split: if_splits)
    have w': "w' = w\<lparr>events := events w @ map ServerFree (server_ptr s # ps)\<rparr>"
      using ih(4) ff by simp
    have "set (server_ptr s # ps) = server_ptr ` set (dns_servers l)"
      using ih(5) ff Cons by auto
    with w' have "\<exists>ps. w' = w\<lparr>events := events w @ map ServerFree ps\<rparr> \<and>
        set ps = server_ptr ` set (dns_servers l)" by blast
    with ih(1) l' cur show ?thesis by blast
  qed
qed

lemma sweep_marked_char:
  "sweep_marked w l xs = (l', w') \<Longrightarrow>
     dns_servers l' =
       filter (\<lambda>s. server_ptr s \<notin> server_ptr ` set (filter marked xs)) (dns_servers l) \<and>
     current_dns_server l' =
       (case current_dns_server l of
          None \<Rightarrow> None
        | Some p \<Rightarrow> if p \<in> server_ptr ` set (filter marked xs) then None else Some p) \<and>
     l' = l\<lparr>dns_servers := dns_servers l', current_dns_server := current_dns_server l'\<rparr> \<and>
     w' = w\<lparr>events := events w @ map ServerFree (map server_ptr (filter marked xs))\<rparr>"
proof (induction xs arbitrary: l w)
  case Nil
  then show ?case by (auto split: option.splits)
next
  case (Cons x xs)
  show ?case
  proof (cases "marked x")
    case False
    then have fm: "filter marked (x # xs) = filter marked xs" by simp
    from Cons.prems False have "sweep_marked w l xs = (l', w')" by simp
    from Cons.IH [OF this] show ?thesis unfolding fm .
  next
    case True
    let ?M = "server_ptr ` set (filter marked xs)"
    have fm: "server_ptr ` set (filter marked (x # xs)) = insert (server_ptr x) ?M"
      "map ServerFree (map server_ptr (filter marked (x # xs))) =
         ServerFree (server_ptr x) # map ServerFree (map server_ptr (filter marked xs))"
      using True by simp_all
    obtain l1 w1 where f: "dns_server_free w l (server_ptr x) = (l1, w1)"
      by (cases "dns_server_free w l (server_ptr x)") auto
    with Cons.prems True have run1: "sweep_marked w1 l1 xs = (l', w')" by simp
    note ff = dns_server_free_fields [OF f]
    note ih = Cons.IH [OF run1]
    have d1: "dns_servers l' = filter (\<lambda>s. server_ptr s \<notin> ?M) (dns_servers l1)"
      using ih by blast
    have d2: "dns_servers l1 = filter (\<lambda>s. server_ptr s \<noteq> server_ptr x) (dns_servers l)"
      using ff by blast
    have d: "dns_servers l' =
       filter (\<lambda>s. server_ptr s \<notin> server_ptr ` set (filter marked (x # xs))) (dns_servers l)"
      unfolding fm d1 d2 by (auto intro: filter_cong)
    have c1: "current_dns_server l' =
       (case current_dns_server l1 of
          None \<Rightarrow> None
        | Some p \<Rightarrow> if p \<in> ?M then None else Some p)"
      using ih by blast
    have c2: "current_dns_server l1 =
        (if current_dns_server l = Some (server_ptr x) then None else current_dns_server l)"
      using ff by blast
    have c: "current_dns_server l' =
       (case current_dns_server l of
          None \<Rightarrow> None
        | Some p \<Rightarrow> if p \<in> server_ptr ` set (filter marked (x # xs)) then None else Some p)"
      unfolding fm c1 c2 by (cases "current_dns_server l") auto
    have l': "l' = l\<lparr>dns_servers := dns_servers l', current_dns_server := current_dns_server l'\<rparr>"
    proof -
      from ff have "\<exists>A B. l1 = l\<lparr>dns_servers := A, current_dns_server := B\<rparr>" by blast
      then obtain A B where l1: "l1 = l\<lparr>dns_servers := A, current_dns_server := B\<rparr>" by blast
      from ih have "l' = l1\<lparr>dns_servers := dns_servers l',
          current_dns_server := current_dns_server l'\<rparr>" by blast
      with l1 show ?thesis by simp
    qed
    have w1: "w1 = w\<lparr>events := events w @ [ServerFree (server_ptr x)]\<rparr>"
      using ff by blast
    have "w' = w1\<lparr>events := events w1 @
        map ServerFree (map server_ptr (filter marked xs))\<rparr>"
      using ih by blast
    then have w': "w' = w\<lparr>events := events w @
        map ServerFree (map server_ptr (filter marked (x # xs)))\<rparr>"
      unfolding fm w1 by simp
    from d c l' w' show ?thesis by blast
  qed
qed

lemma sweep_marked_all:
  assumes "distinct (map server_ptr (dns_servers l))"
    and "sweep_marked w l (dns_servers l) = (l', w')"
  shows "dns_servers l' = filter (\<lambda>s. \<not> marked s) (dns_servers l)"
proof -
  have inj: "inj_on server_ptr (set (dns_servers l))"
    using assms(1) by (simp add: distinct_map)
  have "\<forall>s \<in> set (dns_servers l).
      (server_ptr s \<notin> server_ptr ` set (filter marked (dns_servers l))) = (\<not> marked s)"
  proof
    fix s assume s: "s \<in> set (dns_servers l)"
    show "(server_ptr s \<notin> server_ptr ` set (filter marked (dns_servers l))) = (\<not> marked s)"
    proof
      assume "server_ptr s \<notin> server_ptr ` set (filter marked (dns_servers l))"
      with s show "\<not> marked s" by (auto simp: image_iff)
    next
      assume n: "\<not> marked s"
      show "server_ptr s \<notin> server_ptr ` set (filter marked (dns_servers l))"
      proof
        assume "server_ptr s \<in> server_ptr ` set (filter marked (dns_servers l))"
        then obtain t where "t \<in> set (dns_servers l)" "marked t" "server_ptr t = server_ptr s"
          by (auto simp: image_iff)
        with inj s have "t = s" by (auto dest: inj_onD)
        with \<open>marked t\<close> n show False by simp
      qed
    qed
  qed
  then have "filter (\<lambda>s. server_ptr s \<notin> server_ptr ` set (filter marked (dns_servers l)))
      (dns_servers l) = filter (\<lambda>s. \<not> marked s) (dns_servers l)"
    by (intro filter_cong) auto
  with sweep_marked_char [OF assms(2)] show ?thesis by simp
qed

lemma servers_wf_filter:
  assumes "servers_wf w l" and "dns_servers l' = filter P (dns_servers l)"
    and "next_ptr w' = next_ptr w"
  shows "servers_wf w' l'"
  using assms by (simp add: servers_wf_def distinct_map_filter list_all_iff)

lemma update_success_list:
  assumes wf: "servers_wf w l"
    and run: "link_update_dns_servers env w l = (r, l', w')"
    and ok: "r = 0"
  shows "\<not> fst (sd_network_get_dns env (ifindex l)) < 0 \<and>
     (\<forall>n \<in> set (snd (sd_network_get_dns env (ifindex l))).
        \<not> fst (in_addr_from_string_auto env n) < 0) \<and>
     (\<exists>news.
        dns_servers l' =
          map (\<lambda>s. s\<lparr>marked := False\<rparr>)
            (filter (\<lambda>s. server_key s \<in> reported_keys env (snd (sd_network_get_dns env (ifindex l))))
               (dns_servers l)) @ news \<and>
        server_key ` set news =
          reported_keys env (snd (sd_network_get_dns env (ifindex l))) -
          server_key ` set (dns_servers l) \<and>
        (\<forall>n \<in> set news. next_ptr w \<le> server_ptr n)) \<and>
     servers_wf w' l' \<and>
     current_dns_server l' =
       (case current_dns_server l of
          None \<Rightarrow> None
        | Some p \<Rightarrow>
            if p \<in> server_ptr ` {s \<in> set (dns_servers l).
                  server_key s \<notin> reported_keys env (snd (sd_network_get_dns env (ifindex l)))}
            then None else Some p) \<and>
     events w' = events w @ map ServerFree (map server_ptr
        (filter (\<lambda>s. server_key s \<notin> reported_keys env (snd (sd_network_get_dns env (ifindex l))))
           (dns_servers l)))"
proof -
  let ?ss = "dns_servers l"
  let ?l1 = "l\<lparr>dns_servers := map (\<lambda>s. s\<lparr>marked := True\<rparr>) ?ss\<rparr>"
  obtain rf nss where fetch: "sd_network_get_dns env (ifindex l) = (rf, nss)"
    by (cases "sd_network_get_dns env (ifindex l)") auto
  let ?R = "reported_keys env nss"
  obtain r2 l2 w2 where loop: "update_dns_servers_loop env w ?l1 nss = (r2, l2, w2)"
    by (cases "update_dns_servers_loop env w ?l1 nss") auto
  have rf: "\<not> rf < 0"
  proof
    assume "rf < 0"
    with run fetch have "r = rf"
      by (simp add: link_update_dns_servers_def Let_def split: prod.splits)
    with \<open>rf < 0\<close> ok show False by simp
  qed
  have r2: "\<not> r2 < 0"
  proof
    assume "r2 < 0"
    with run fetch rf loop have "r = r2"
      by (simp add: link_update_dns_servers_def Let_def split: prod.splits)
    with \<open>r2 < 0\<close> ok show False by simp
  qed
  have sweep: "sweep_marked w2 l2 (dns_servers l2) = (l', w')"
    using run fetch rf loop r2 by (simp add: link_update_dns_servers_def Let_def split: prod.splits)
  have wf1: "servers_wf w ?l1"
    by (rule servers_wf_map_marked [OF _ wf]) simp
  from update_loop_char [OF wf1 loop r2]
  obtain news where lc: "\<forall>ns \<in> set nss. \<not> fst (in_addr_from_string_auto env ns) < 0"
    "dns_servers l2 =
       map (\<lambda>s. if server_key s \<in> ?R then s\<lparr>marked := False\<rparr> else s) (dns_servers ?l1) @ news"
    "server_key ` set news = ?R - server_key ` set (dns_servers ?l1)"
    "\<forall>n \<in> set news. \<not> marked n \<and> next_ptr w \<le> server_ptr n"
    "servers_wf w2 l2" "l2 = ?l1\<lparr>dns_servers := dns_servers l2\<rparr>" "events w2 = events w"
    "next_ptr w \<le> next_ptr w2"
    by blast
  have l2: "dns_servers l2 =
      map (\<lambda>s. if server_key s \<in> ?R then s\<lparr>marked := False\<rparr> else s\<lparr>marked := True\<rparr>) ?ss @ news"
    using lc(2) by (simp add: comp_def if_distrib cong: if_cong)
  have d2: "distinct (map server_ptr (dns_servers l2))"
    using lc(5) by (simp add: servers_wf_def)
  note sc = sweep_marked_char [OF sweep]
  have keep: "filter (\<lambda>s. \<not> marked s) (dns_servers l2) =
      map (\<lambda>s. s\<lparr>marked := False\<rparr>) (filter (\<lambda>s. server_key s \<in> ?R) ?ss) @ news"
  proof -
    have a: "filter (\<lambda>s. \<not> marked s)
        (map (\<lambda>s. if server_key s \<in> ?R then s\<lparr>marked := False\<rparr> else s\<lparr>marked := True\<rparr>) xs) =
        map (\<lambda>s. s\<lparr>marked := False\<rparr>) (filter (\<lambda>s. server_key s \<in> ?R) xs)" for xs
      by (induction xs) simp_all
    have b: "filter (\<lambda>s. \<not> marked s) news = news"
      using lc(4) by (simp add: filter_id_conv)
    show ?thesis unfolding l2 by (simp add: a b)
  qed
  have swept: "filter marked (dns_servers l2) =
      map (\<lambda>s. s\<lparr>marked := True\<rparr>) (filter (\<lambda>s. server_key s \<notin> ?R) ?ss)"
  proof -
    have a: "filter marked
        (map (\<lambda>s. if server_key s \<in> ?R then s\<lparr>marked := False\<rparr> else s\<lparr>marked := True\<rparr>) xs) =
        map (\<lambda>s. s\<lparr>marked := True\<rparr>) (filter (\<lambda>s. server_key s \<notin> ?R) xs)" for xs
      by (induction xs) simp_all
    have b: "filter marked news = []"
      using lc(4) by (simp add: filter_empty_conv)
    show ?thesis unfolding l2 by (simp add: a b)
  qed
  have list: "dns_servers l' =
      map (\<lambda>s. s\<lparr>marked := False\<rparr>) (filter (\<lambda>s. server_key s \<in> ?R) ?ss) @ news"
    using sweep_marked_all [OF d2 sweep] keep by simp
  have k1: "server_key ` set (dns_servers ?l1) = server_key ` set ?ss"
    by (simp add: image_image)
  have nk: "server_key ` set news = ?R - server_key ` set ?ss"
    using lc(3) k1 by simp
  have fresh: "\<forall>n \<in> set news. next_ptr w \<le> server_ptr n" using lc(4) by blast
  have w': "next_ptr w' = next_ptr w2" using sc by simp
  have wf': "servers_wf w' l'"
    using servers_wf_filter [OF lc(5) sweep_marked_all [OF d2 sweep] w'] .
  have sp: "server_ptr ` set (filter marked (dns_servers l2)) =
      server_ptr ` {s \<in> set ?ss. server_key s \<notin> ?R}"
    unfolding swept by (auto simp: image_iff)
  have cur2: "current_dns_server l2 = current_dns_server l"
    using lc(6) by (metis Link.select_convs(7) Link.surjective Link.update_convs(6))
  have cur: "current_dns_server l' =
       (case current_dns_server l of
          None \<Rightarrow> None
        | Some p \<Rightarrow>
            if p \<in> server_ptr ` {s \<in> set ?ss. server_key s \<notin> ?R} then None else Some p)"
  proof -
    from sc have "current_dns_server l' =
       (case current_dns_server l2 of
          None \<Rightarrow> None
        | Some p \<Rightarrow> if p \<in> server_ptr ` set (filter marked (dns_servers l2)) then None else Some p)"
      by blast
    then show ?thesis unfolding cur2 sp .
  qed
  have ev: "events w' = events w @ map ServerFree (map server_ptr
        (filter (\<lambda>s. server_key s \<notin> ?R) ?ss))"
  proof -
    from sc have "w' = w2\<lparr>events := events w2 @
        map ServerFree (map server_ptr (filter marked (dns_servers l2)))\<rparr>" by blast
    then have "events w' = events w2 @
        map ServerFree (map server_ptr (filter marked (dns_servers l2)))" by simp
    moreover have "map server_ptr (map (\<lambda>s. s\<lparr>marked := True\<rparr>) xs) = map server_ptr xs" for xs
      by (induction xs) simp_all
    ultimately show ?thesis unfolding swept lc(7) by simp
  qed
  from rf lc(1) list nk fresh wf' cur ev show ?thesis
    unfolding fetch fst_conv snd_conv by blast
qed

lemma update_failure:
  assumes run: "link_update_dns_servers env w l = (r, l', w')"
  shows "(r = 0 \<or> r < 0) \<and>
    (fst (sd_network_get_dns env (ifindex l)) < 0 \<longrightarrow> r = fst (sd_network_get_dns env (ifindex l))) \<and>
    (\<not> fst (sd_network_get_dns env (ifindex l)) < 0 \<and>
       (\<exists>n \<in> set (snd (sd_network_get_dns env (ifindex l))).
          fst (in_addr_from_string_auto env n) < 0) \<longrightarrow> r < 0) \<and>
    (r < 0 \<and> \<not> fst (sd_network_get_dns env (ifindex l)) < 0 \<longrightarrow>
       (\<exists>n \<in> set (snd (sd_network_get_dns env (ifindex l))).
          r = fst (in_addr_from_string_auto env n)) \<or> r = - ENOMEM) \<and>
    (r < 0 \<longrightarrow> dns_servers l' = [] \<and>
       (\<forall>s \<in> set (dns_servers l). ServerFree (server_ptr s) \<in> set (events w')) \<and>
       (\<exists>ps. events w' = events w @ map ServerFree ps))"
proof -
  let ?ss = "dns_servers l"
  let ?l1 = "l\<lparr>dns_servers := map (\<lambda>s. s\<lparr>marked := True\<rparr>) ?ss\<rparr>"
  obtain rf nss where fetch: "sd_network_get_dns env (ifindex l) = (rf, nss)"
    by (cases "sd_network_get_dns env (ifindex l)") auto
  have p1: "server_ptr ` set (dns_servers ?l1) = server_ptr ` set ?ss"
    by (simp add: image_image)
  show ?thesis
  proof (cases "rf < 0")
    case True
    with run fetch have c: "clear_dns_servers w ?l1 = (l', w')" and r: "r = rf"
      by (auto simp: link_update_dns_servers_def Let_def split: prod.splits)
    from clear_dns_servers_char [OF c] obtain ps where
      "dns_servers l' = []" "w' = w\<lparr>events := events w @ map ServerFree ps\<rparr>"
      "set ps = server_ptr ` set (dns_servers ?l1)" by blast
    with p1 have "dns_servers l' = []" "events w' = events w @ map ServerFree ps"
      "set ps = server_ptr ` set ?ss" by simp_all
    then have "dns_servers l' = [] \<and>
       (\<forall>s \<in> set ?ss. ServerFree (server_ptr s) \<in> set (events w')) \<and>
       (\<exists>ps. events w' = events w @ map ServerFree ps)" by auto
    with True r show ?thesis unfolding fetch fst_conv snd_conv by simp
  next
    case rf: False
    obtain r2 l2 w2 where loop: "update_dns_servers_loop env w ?l1 nss = (r2, l2, w2)"
      by (cases "update_dns_servers_loop env w ?l1 nss") auto
    note g = update_loop_general [OF loop]
    show ?thesis
    proof (cases "r2 < 0")
      case True
      with run fetch rf loop have c: "clear_dns_servers w2 l2 = (l', w')" and r: "r = r2"
        by (auto simp: link_update_dns_servers_def Let_def split: prod.splits)
      from clear_dns_servers_char [OF c] obtain ps where
        cl: "dns_servers l' = []" "w' = w2\<lparr>events := events w2 @ map ServerFree ps\<rparr>"
        "set ps = server_ptr ` set (dns_servers l2)" by blast
      from g have sub: "server_ptr ` set ?ss \<subseteq> server_ptr ` set (dns_servers l2)"
        and ev2: "events w2 = events w" unfolding p1 by blast+
      from cl ev2 have ev: "events w' = events w @ map ServerFree ps" by simp
      have "\<forall>s \<in> set ?ss. ServerFree (server_ptr s) \<in> set (events w')"
      proof
        fix s assume "s \<in> set ?ss"
        with sub cl(3) have "server_ptr s \<in> set ps" by blast
        then show "ServerFree (server_ptr s) \<in> set (events w')" unfolding ev by simp
      qed
      with cl(1) ev have "dns_servers l' = [] \<and>
         (\<forall>s \<in> set ?ss. ServerFree (server_ptr s) \<in> set (events w')) \<and>
         (\<exists>ps. events w' = events w @ map ServerFree ps)" by blast
      moreover from g True have "(\<exists>ns \<in> set nss. r2 = fst (in_addr_from_string_auto env ns)) \<or>
          r2 = - ENOMEM" by blast
      ultimately show ?thesis using True r rf unfolding fetch fst_conv snd_conv by simp
    next
      case False
      with run fetch rf loop have r: "r = 0"
        by (auto simp: link_update_dns_servers_def Let_def split: prod.splits)
      from g False have "\<not> (\<exists>ns \<in> set nss. fst (in_addr_from_string_auto env ns) < 0)"
        by blast
      with r rf show ?thesis unfolding fetch fst_conv snd_conv by simp
    qed
  qed
qed

lemma dns_server_new_outcomes:
  assumes "dns_server_new w l f a = (r, l', w')"
  shows "set (outcomes w') \<subseteq> set (outcomes w) \<and>
    (r < 0 \<longrightarrow> (\<exists>x \<in> set (outcomes w). x < 0)) \<and>
    ((\<forall>x \<in> set (outcomes w). \<not> x < 0) \<longrightarrow> r = 0)"
proof -
  obtain r0 w0 where n: "next_outcome w = (r0, w0)" by (cases "next_outcome w") auto
  from next_outcome_cases [OF n] show ?thesis
  proof
    assume "outcomes w = [] \<and> r0 = 0 \<and> w0 = w"
    with assms n show ?thesis by (auto simp: dns_server_new_def new0_def)
  next
    assume "\<exists>rs. outcomes w = r0 # rs \<and> w0 = w\<lparr>outcomes := rs\<rparr>"
    then obtain rs where "outcomes w = r0 # rs" "w0 = w\<lparr>outcomes := rs\<rparr>" by blast
    with assms n show ?thesis
      by (cases "r0 < 0") (auto simp: dns_server_new_def new0_def)
  qed
qed

text \<open>The code a pass over the reported strings ends with.\<close>

lemma update_loop_code:
  "update_dns_servers_loop env w l nss = (r, l', w') \<Longrightarrow>
     (r < 0 \<longrightarrow>
        (\<exists>n. find (\<lambda>n. fst (in_addr_from_string_auto env n) < 0) nss = Some n \<and>
             r = fst (in_addr_from_string_auto env n)) \<or>
        (r = - ENOMEM \<and> (\<exists>x \<in> set (outcomes w). x < 0))) \<and>
     ((\<forall>x \<in> set (outcomes w). \<not> x < 0) \<longrightarrow>
        r = (case find (\<lambda>n. fst (in_addr_from_string_auto env n) < 0) nss of
               None \<Rightarrow> 0
             | Some n \<Rightarrow> fst (in_addr_from_string_auto env n)))"
proof (induction nss arbitrary: l w)
  case Nil
  then show ?case by simp
next
  case (Cons ns rest)
  obtain r0 f a where p: "in_addr_from_string_auto env ns = (r0, f, a)"
    by (cases "in_addr_from_string_auto env ns") auto
  show ?case
  proof (cases "r0 < 0")
    case True
    with Cons.prems p have "r = r0" by simp
    with True p show ?thesis by simp
  next
    case r0: False
    show ?thesis
    proof (cases "find_dns_server (dns_servers l) f a")
      case (Some s)
      let ?l1 = "l\<lparr>dns_servers := unmark (server_ptr s) (dns_servers l)\<rparr>"
      have run1: "update_dns_servers_loop env w ?l1 rest = (r, l', w')"
        using Cons.prems p r0 Some by (simp add: link_find_dns_server_def)
      from Cons.IH [OF run1] p r0 show ?thesis by simp
    next
      case None
      obtain r1 l1 w1 where n: "dns_server_new w l f a = (r1, l1, w1)"
        by (cases "dns_server_new w l f a") auto
      note c = dns_server_new_cases [OF n]
      note o = dns_server_new_outcomes [OF n]
      show ?thesis
      proof (cases "r1 < 0")
        case True
        with Cons.prems p r0 None n have "r = r1"
          by (simp add: link_find_dns_server_def)
        with c o True p r0 show ?thesis by (auto simp: ENOMEM_def)
      next
        case False
        with Cons.prems p r0 None n
        have run1: "update_dns_servers_loop env w1 l1 rest = (r, l', w')"
          by (simp add: link_find_dns_server_def)
        note ih = Cons.IH [OF run1]
        have a: "r < 0 \<longrightarrow>
          (\<exists>n. find (\<lambda>n. fst (in_addr_from_string_auto env n) < 0) (ns # rest) = Some n \<and>
               r = fst (in_addr_from_string_auto env n)) \<or>
          (r = - ENOMEM \<and> (\<exists>x \<in> set (outcomes w). x < 0))"
          using ih [THEN conjunct1] o [THEN conjunct1] p r0 by auto
        have b: "(\<forall>x \<in> set (outcomes w). \<not> x < 0) \<longrightarrow>
          r = (case find (\<lambda>n. fst (in_addr_from_string_auto env n) < 0) (ns # rest) of
                 None \<Rightarrow> 0
               | Some n \<Rightarrow> fst (in_addr_from_string_auto env n))"
          using ih [THEN conjunct2] o [THEN conjunct1] p r0 by auto
        from a b show ?thesis by (rule conjI)
      qed
    qed
  qed
qed

lemma update_code:
  assumes run: "link_update_dns_servers env w l = (r, l', w')"
    and fetch: "\<not> fst (sd_network_get_dns env (ifindex l)) < 0"
  shows "(r < 0 \<longrightarrow>
        (\<exists>n. find (\<lambda>n. fst (in_addr_from_string_auto env n) < 0)
               (snd (sd_network_get_dns env (ifindex l))) = Some n \<and>
             r = fst (in_addr_from_string_auto env n)) \<or>
        (r = - ENOMEM \<and> (\<exists>x \<in> set (outcomes w). x < 0))) \<and>
     ((\<forall>x \<in> set (outcomes w). \<not> x < 0) \<longrightarrow>
        r = (case find (\<lambda>n. fst (in_addr_from_string_auto env n) < 0)
                 (snd (sd_network_get_dns env (ifindex l))) of
               None \<Rightarrow> 0
             | Some n \<Rightarrow> fst (in_addr_from_string_auto env n)))"
proof -
  let ?l1 = "l\<lparr>dns_servers := map (\<lambda>s. s\<lparr>marked := True\<rparr>) (dns_servers l)\<rparr>"
  obtain rf nss where f: "sd_network_get_dns env (ifindex l) = (rf, nss)"
    by (cases "sd_network_get_dns env (ifindex l)") auto
  with fetch have rf: "\<not> rf < 0" by simp
  obtain r2 l2 w2 where loop: "update_dns_servers_loop env w ?l1 nss = (r2, l2, w2)"
    by (cases "update_dns_servers_loop env w ?l1 nss") auto
  note c = update_loop_code [OF loop]
  note g = update_loop_general [OF loop, THEN conjunct2, THEN conjunct2, THEN conjunct1]
  have r: "r = r2"
  proof (cases "r2 < 0")
    case True
    with run f rf loop show ?thesis
      by (auto simp: link_update_dns_servers_def Let_def split: prod.splits)
  next
    case False
    with run f rf loop have "r = 0"
      by (auto simp: link_update_dns_servers_def Let_def split: prod.splits)
    with False g show ?thesis by auto
  qed
  from c show ?thesis unfolding r f snd_conv .
qed

text \<open>
  C1. A pass of \<open>link_update_dns_servers\<close> over a well-formed server list returns 0 or a
  negative code. When it returns 0 the fetch and every parse succeeded and the list holds
  exactly the reported (family, value) set: every old entry whose pair is reported is still
  on the list as the same object (only its transient mark reset), so a cursor on it is
  unchanged; every old entry whose pair is not reported is off the list and freed; every
  other entry is newly allocated; and the list is well formed again. A failed fetch
  returns the fetch's code and a failed parse makes the pass fail. A failing pass after a
  good fetch returns the code of the first string that fails to parse, or \<open>-ENOMEM\<close>
  when an allocation failed; when no allocation fails, the pass returns the code of the
  first failing parse, and 0 if every string parses. After any failing pass the list is
  empty and every old entry has been freed.
\<close>

theorem dns_server_reconciliation:
  assumes wf: "servers_wf w l"
    and run: "link_update_dns_servers env w l = (r, l', w')"
  shows "(r = 0 \<or> r < 0)
    \<and> (r = 0 \<longrightarrow>
          \<not> fst (sd_network_get_dns env (ifindex l)) < 0
        \<and> (\<forall>n \<in> set (snd (sd_network_get_dns env (ifindex l))).
              \<not> fst (in_addr_from_string_auto env n) < 0)
        \<and> server_key ` set (dns_servers l') =
            reported_keys env (snd (sd_network_get_dns env (ifindex l)))
        \<and> (\<forall>s \<in> set (dns_servers l).
              server_key s \<in> reported_keys env (snd (sd_network_get_dns env (ifindex l))) \<longrightarrow>
              s\<lparr>marked := False\<rparr> \<in> set (dns_servers l'))
        \<and> (\<forall>s \<in> set (dns_servers l).
              server_key s \<notin> reported_keys env (snd (sd_network_get_dns env (ifindex l))) \<longrightarrow>
              server_ptr s \<notin> server_ptr ` set (dns_servers l') \<and>
              ServerFree (server_ptr s) \<in> set (events w'))
        \<and> (\<forall>s' \<in> set (dns_servers l').
              server_ptr s' \<in> server_ptr ` set (dns_servers l) \<or> next_ptr w \<le> server_ptr s')
        \<and> (\<forall>p. current_dns_server l = Some p \<and> p \<in> server_ptr ` set (dns_servers l') \<longrightarrow>
              current_dns_server l' = Some p)
        \<and> servers_wf w' l')
    \<and> (fst (sd_network_get_dns env (ifindex l)) < 0 \<longrightarrow>
          r = fst (sd_network_get_dns env (ifindex l)))
    \<and> (\<not> fst (sd_network_get_dns env (ifindex l)) < 0 \<and>
         (\<exists>n \<in> set (snd (sd_network_get_dns env (ifindex l))).
            fst (in_addr_from_string_auto env n) < 0) \<longrightarrow> r < 0)
    \<and> (r < 0 \<and> \<not> fst (sd_network_get_dns env (ifindex l)) < 0 \<longrightarrow>
         (\<exists>n. find (\<lambda>n. fst (in_addr_from_string_auto env n) < 0)
                (snd (sd_network_get_dns env (ifindex l))) = Some n \<and>
              r = fst (in_addr_from_string_auto env n)) \<or>
         (r = - ENOMEM \<and> (\<exists>x \<in> set (outcomes w). x < 0)))
    \<and> ((\<forall>x \<in> set (outcomes w). \<not> x < 0) \<and>
         \<not> fst (sd_network_get_dns env (ifindex l)) < 0 \<longrightarrow>
         r = (case find (\<lambda>n. fst (in_addr_from_string_auto env n) < 0)
                  (snd (sd_network_get_dns env (ifindex l))) of
                None \<Rightarrow> 0
              | Some n \<Rightarrow> fst (in_addr_from_string_auto env n)))
    \<and> (r < 0 \<longrightarrow> dns_servers l' = [] \<and>
         (\<forall>s \<in> set (dns_servers l). ServerFree (server_ptr s) \<in> set (events w')))"
proof -
  let ?R = "reported_keys env (snd (sd_network_get_dns env (ifindex l)))"
  let ?ss = "dns_servers l"
  note f = update_failure [OF run]
  note f1 = f [THEN conjunct1]
  note f2 = f [THEN conjunct2, THEN conjunct1]
  note f3 = f [THEN conjunct2, THEN conjunct2, THEN conjunct1]
  have c4: "r < 0 \<and> \<not> fst (sd_network_get_dns env (ifindex l)) < 0 \<longrightarrow>
         (\<exists>n. find (\<lambda>n. fst (in_addr_from_string_auto env n) < 0)
                (snd (sd_network_get_dns env (ifindex l))) = Some n \<and>
              r = fst (in_addr_from_string_auto env n)) \<or>
         (r = - ENOMEM \<and> (\<exists>x \<in> set (outcomes w). x < 0))"
  proof
    assume a: "r < 0 \<and> \<not> fst (sd_network_get_dns env (ifindex l)) < 0"
    then have "\<not> fst (sd_network_get_dns env (ifindex l)) < 0" by (rule conjunct2)
    from update_code [OF run this, THEN conjunct1] a
    show "(\<exists>n. find (\<lambda>n. fst (in_addr_from_string_auto env n) < 0)
                (snd (sd_network_get_dns env (ifindex l))) = Some n \<and>
              r = fst (in_addr_from_string_auto env n)) \<or>
         (r = - ENOMEM \<and> (\<exists>x \<in> set (outcomes w). x < 0))"
      by (simp only: simp_thms)
  qed
  have c5: "(\<forall>x \<in> set (outcomes w). \<not> x < 0) \<and>
         \<not> fst (sd_network_get_dns env (ifindex l)) < 0 \<longrightarrow>
         r = (case find (\<lambda>n. fst (in_addr_from_string_auto env n) < 0)
                  (snd (sd_network_get_dns env (ifindex l))) of
                None \<Rightarrow> 0
              | Some n \<Rightarrow> fst (in_addr_from_string_auto env n))"
  proof
    assume a: "(\<forall>x \<in> set (outcomes w). \<not> x < 0) \<and>
         \<not> fst (sd_network_get_dns env (ifindex l)) < 0"
    then have n: "\<forall>x \<in> set (outcomes w). \<not> x < 0"
      and "\<not> fst (sd_network_get_dns env (ifindex l)) < 0" by (rule conjunct1, rule conjunct2)
    from update_code [OF run this(2), THEN conjunct2] n
    show "r = (case find (\<lambda>n. fst (in_addr_from_string_auto env n) < 0)
                  (snd (sd_network_get_dns env (ifindex l))) of
                None \<Rightarrow> 0
              | Some n \<Rightarrow> fst (in_addr_from_string_auto env n))"
      by (rule mp)
  qed
  note f5 = f [THEN conjunct2, THEN conjunct2, THEN conjunct2, THEN conjunct2]
  have f5': "r < 0 \<longrightarrow> dns_servers l' = [] \<and>
         (\<forall>s \<in> set (dns_servers l). ServerFree (server_ptr s) \<in> set (events w'))"
  proof
    assume "r < 0"
    with f5 have "dns_servers l' = [] \<and>
       (\<forall>s \<in> set (dns_servers l). ServerFree (server_ptr s) \<in> set (events w')) \<and>
       (\<exists>ps. events w' = events w @ map ServerFree ps)" by (rule mp)
    then show "dns_servers l' = [] \<and>
         (\<forall>s \<in> set (dns_servers l). ServerFree (server_ptr s) \<in> set (events w'))"
      by (iprover elim: conjE intro: conjI)
  qed
  have success: "r = 0 \<longrightarrow>
          \<not> fst (sd_network_get_dns env (ifindex l)) < 0
        \<and> (\<forall>n \<in> set (snd (sd_network_get_dns env (ifindex l))).
              \<not> fst (in_addr_from_string_auto env n) < 0)
        \<and> server_key ` set (dns_servers l') = ?R
        \<and> (\<forall>s \<in> set ?ss. server_key s \<in> ?R \<longrightarrow> s\<lparr>marked := False\<rparr> \<in> set (dns_servers l'))
        \<and> (\<forall>s \<in> set ?ss. server_key s \<notin> ?R \<longrightarrow>
              server_ptr s \<notin> server_ptr ` set (dns_servers l') \<and>
              ServerFree (server_ptr s) \<in> set (events w'))
        \<and> (\<forall>s' \<in> set (dns_servers l').
              server_ptr s' \<in> server_ptr ` set ?ss \<or> next_ptr w \<le> server_ptr s')
        \<and> (\<forall>p. current_dns_server l = Some p \<and> p \<in> server_ptr ` set (dns_servers l') \<longrightarrow>
              current_dns_server l' = Some p)
        \<and> servers_wf w' l'"
  proof
    assume ok: "r = 0"
    note u = update_success_list [OF wf run ok]
    note s1 = u [THEN conjunct1]
    note s2 = u [THEN conjunct2, THEN conjunct1]
    note u3 = u [THEN conjunct2, THEN conjunct2, THEN conjunct1]
    note s6 = u [THEN conjunct2, THEN conjunct2, THEN conjunct2, THEN conjunct1]
    note s7 = u [THEN conjunct2, THEN conjunct2, THEN conjunct2, THEN conjunct2, THEN conjunct1]
    note s8 = u [THEN conjunct2, THEN conjunct2, THEN conjunct2, THEN conjunct2, THEN conjunct2]
    from u3 obtain news where s3: "dns_servers l' =
          map (\<lambda>s. s\<lparr>marked := False\<rparr>) (filter (\<lambda>s. server_key s \<in> ?R) ?ss) @ news"
      and s4: "server_key ` set news = ?R - server_key ` set ?ss"
      and s5: "\<forall>n \<in> set news. next_ptr w \<le> server_ptr n"
      by (elim exE conjE)
    have inj: "inj_on server_ptr (set ?ss)"
      and old: "\<forall>s \<in> set ?ss. server_ptr s < next_ptr w"
      using wf by (simp_all add: servers_wf_def distinct_map list_all_iff)
    let ?kept = "{s \<in> set ?ss. server_key s \<in> ?R}"
    have set': "set (dns_servers l') = (\<lambda>s. s\<lparr>marked := False\<rparr>) ` ?kept \<union> set news"
      unfolding s3 by simp
    have keys: "server_key ` set (dns_servers l') = ?R"
    proof -
      have "server_key ` set (dns_servers l') = server_key ` ?kept \<union> server_key ` set news"
        unfolding set' by (simp add: image_Un image_image)
      also have "server_key ` ?kept = server_key ` set ?ss \<inter> ?R" by blast
      also have "server_key ` set ?ss \<inter> ?R \<union> server_key ` set news = ?R"
        unfolding s4 by blast
      finally show ?thesis .
    qed
    have ptrs: "server_ptr ` set (dns_servers l') = server_ptr ` ?kept \<union> server_ptr ` set news"
      unfolding set' by (simp add: image_Un image_image)
    have ident: "\<forall>s \<in> set ?ss. server_key s \<in> ?R \<longrightarrow> s\<lparr>marked := False\<rparr> \<in> set (dns_servers l')"
      unfolding set' by blast
    have gone: "\<forall>s \<in> set ?ss. server_key s \<notin> ?R \<longrightarrow>
        server_ptr s \<notin> server_ptr ` set (dns_servers l') \<and>
        ServerFree (server_ptr s) \<in> set (events w')"
    proof (intro ballI impI conjI)
      fix s assume s_in: "s \<in> set ?ss" and nk: "server_key s \<notin> ?R"
      have lt: "server_ptr s < next_ptr w" using old s_in by blast
      show "server_ptr s \<notin> server_ptr ` set (dns_servers l')"
      proof
        assume "server_ptr s \<in> server_ptr ` set (dns_servers l')"
        then have "server_ptr s \<in> server_ptr ` ?kept \<or> server_ptr s \<in> server_ptr ` set news"
          unfolding ptrs by simp
        then show False
        proof
          assume "server_ptr s \<in> server_ptr ` ?kept"
          then obtain t where t: "t \<in> set ?ss" "server_key t \<in> ?R" "server_ptr s = server_ptr t"
            by blast
          from inj t(3) s_in t(1) have "s = t" by (rule inj_onD)
          with t(2) nk show False by simp
        next
          assume "server_ptr s \<in> server_ptr ` set news"
          then obtain n where n: "n \<in> set news" "server_ptr s = server_ptr n" by blast
          from s5 n(1) have "next_ptr w \<le> server_ptr n" by blast
          with lt n(2) show False by simp
        qed
      qed
      from s_in nk have "s \<in> set (filter (\<lambda>s. server_key s \<notin> ?R) ?ss)" by simp
      then have "server_ptr s \<in> server_ptr ` set (filter (\<lambda>s. server_key s \<notin> ?R) ?ss)"
        by (rule imageI)
      then have "ServerFree (server_ptr s) \<in>
          ServerFree ` server_ptr ` set (filter (\<lambda>s. server_key s \<notin> ?R) ?ss)"
        by (rule imageI)
      then show "ServerFree (server_ptr s) \<in> set (events w')"
        unfolding s8 set_append set_map by (rule UnI2)
    qed
    have fresh: "\<forall>s' \<in> set (dns_servers l').
        server_ptr s' \<in> server_ptr ` set ?ss \<or> next_ptr w \<le> server_ptr s'"
    proof
      fix s' assume "s' \<in> set (dns_servers l')"
      then have "server_ptr s' \<in> server_ptr ` ?kept \<union> server_ptr ` set news"
        unfolding ptrs [symmetric] by (rule imageI)
      then have "server_ptr s' \<in> server_ptr ` ?kept \<or> server_ptr s' \<in> server_ptr ` set news"
        by simp
      then show "server_ptr s' \<in> server_ptr ` set ?ss \<or> next_ptr w \<le> server_ptr s'"
      proof
        assume "server_ptr s' \<in> server_ptr ` ?kept"
        then show ?thesis by blast
      next
        assume "server_ptr s' \<in> server_ptr ` set news"
        then obtain n where "n \<in> set news" "server_ptr s' = server_ptr n" by blast
        with s5 show ?thesis by simp
      qed
    qed
    have cursor: "\<forall>p. current_dns_server l = Some p \<and> p \<in> server_ptr ` set (dns_servers l') \<longrightarrow>
        current_dns_server l' = Some p"
    proof (intro allI impI)
      fix p assume a: "current_dns_server l = Some p \<and> p \<in> server_ptr ` set (dns_servers l')"
      have "p \<notin> server_ptr ` {s \<in> set ?ss. server_key s \<notin> ?R}"
      proof
        assume "p \<in> server_ptr ` {s \<in> set ?ss. server_key s \<notin> ?R}"
        then obtain s where s: "s \<in> set ?ss" "server_key s \<notin> ?R" "p = server_ptr s" by blast
        from gone s(1) have "server_key s \<notin> ?R \<longrightarrow>
            server_ptr s \<notin> server_ptr ` set (dns_servers l') \<and>
            ServerFree (server_ptr s) \<in> set (events w')" by (rule bspec)
        with s(2) have "server_ptr s \<notin> server_ptr ` set (dns_servers l')" by simp
        with a s(3) show False by simp
      qed
      with a show "current_dns_server l' = Some p" unfolding s7 by simp
    qed
    show "\<not> fst (sd_network_get_dns env (ifindex l)) < 0
        \<and> (\<forall>n \<in> set (snd (sd_network_get_dns env (ifindex l))).
              \<not> fst (in_addr_from_string_auto env n) < 0)
        \<and> server_key ` set (dns_servers l') = ?R
        \<and> (\<forall>s \<in> set ?ss. server_key s \<in> ?R \<longrightarrow> s\<lparr>marked := False\<rparr> \<in> set (dns_servers l'))
        \<and> (\<forall>s \<in> set ?ss. server_key s \<notin> ?R \<longrightarrow>
              server_ptr s \<notin> server_ptr ` set (dns_servers l') \<and>
              ServerFree (server_ptr s) \<in> set (events w'))
        \<and> (\<forall>s' \<in> set (dns_servers l').
              server_ptr s' \<in> server_ptr ` set ?ss \<or> next_ptr w \<le> server_ptr s')
        \<and> (\<forall>p. current_dns_server l = Some p \<and> p \<in> server_ptr ` set (dns_servers l') \<longrightarrow>
              current_dns_server l' = Some p)
        \<and> servers_wf w' l'"
      by (rule conjI [OF s1 conjI [OF s2 conjI [OF keys conjI [OF ident conjI [OF gone
            conjI [OF fresh conjI [OF cursor s6]]]]]]])
  qed
  show ?thesis
    by (rule conjI [OF f1 conjI [OF success conjI [OF f2 conjI [OF f3 conjI [OF c4
        conjI [OF c5 f5']]]]]])
qed


theorem dns_server_reconciliation_witness:
  "servers_wf example_world example_link
   \<and> link_update_dns_servers example_env example_world example_link =
       (0,
        example_link\<lparr>dns_servers :=
          [example_server2,
           \<lparr>server_ptr = 100, server_family = AF_INET, server_address = 3405803779,
            marked = False\<rparr>]\<rparr>,
        example_world\<lparr>next_ptr := 101, events := [ServerFree 11]\<rparr>)
   \<and> server_key ` set (dns_servers (fst (snd
         (link_update_dns_servers example_env example_world example_link)))) =
       {(AF_INET, 3405803778), (AF_INET, 3405803779)}
   \<and> link_update_dns_servers example_env_bad example_world example_link =
       (- 22, example_link\<lparr>dns_servers := []\<rparr>,
        example_world\<lparr>next_ptr := 101,
          events := [ServerFree 11, ServerFree 12, ServerFree 100]\<rparr>)
   \<and> fst (link_update_dns_servers example_env_bad example_world example_link) =
       fst (in_addr_from_string_auto example_env_bad ''bogus'')"
proof -
  let ?L = "example_link\<lparr>dns_servers :=
          [example_server2,
           \<lparr>server_ptr = 100, server_family = AF_INET, server_address = 3405803779,
            marked = False\<rparr>]\<rparr>"
  let ?W = "example_world\<lparr>next_ptr := 101, events := [ServerFree 11]\<rparr>"
  let ?Lb = "example_link\<lparr>dns_servers := []\<rparr>"
  let ?Wb = "example_world\<lparr>next_ptr := 101,
          events := [ServerFree 11, ServerFree 12, ServerFree 100]\<rparr>"
  have wf: "servers_wf example_world example_link"
    by (simp add: servers_wf_def server_key_def example_world_def example_link_def
        example_server1_def example_server2_def)
  have run: "link_update_dns_servers example_env example_world example_link = (0, ?L, ?W)"
    by (simp add: link_update_dns_servers_def Let_def example_env_def example_world_def
      example_link_def example_server1_def example_server2_def example_parse_def
      link_find_dns_server_def in_addr_equal_def unmark_def dns_server_new_def new0_def
      next_outcome_def dns_server_free_def emit_def AF_INET_def)
  have run_bad: "link_update_dns_servers example_env_bad example_world example_link =
      (- 22, ?Lb, ?Wb)"
    by (simp add: link_update_dns_servers_def Let_def example_env_bad_def example_env_def
      example_world_def
      example_link_def example_server1_def example_server2_def example_parse_def
      link_find_dns_server_def in_addr_equal_def unmark_def dns_server_new_def new0_def
      next_outcome_def dns_server_free_def emit_def AF_INET_def clear_dns_servers.simps)
  have rep: "reported_keys example_env
      (snd (sd_network_get_dns example_env (ifindex example_link))) =
      {(AF_INET, 3405803778), (AF_INET, 3405803779)}"
    by (simp add: reported_keys_def example_env_def example_parse_def)
  from dns_server_reconciliation [OF wf run, THEN conjunct2, THEN conjunct1]
  have "server_key ` set (dns_servers ?L) =
      reported_keys example_env (snd (sd_network_get_dns example_env (ifindex example_link)))"
    by simp
  then have keys: "server_key ` set (dns_servers ?L) =
      {(AF_INET, 3405803778), (AF_INET, 3405803779)}"
    unfolding rep .
  have nofail: "\<forall>x \<in> set (outcomes example_world). \<not> x < 0"
    by (simp add: example_world_def)
  have fetch: "\<not> fst (sd_network_get_dns example_env_bad (ifindex example_link)) < 0"
    by (simp add: example_env_bad_def)
  have first: "find (\<lambda>n. fst (in_addr_from_string_auto example_env_bad n) < 0)
      (snd (sd_network_get_dns example_env_bad (ifindex example_link))) = Some ''bogus''"
    by (simp add: example_env_bad_def example_env_def example_parse_def)
  from dns_server_reconciliation [OF wf run_bad, THEN conjunct2, THEN conjunct2,
      THEN conjunct2, THEN conjunct2, THEN conjunct2, THEN conjunct1] nofail fetch
  have "- 22 = (case find (\<lambda>n. fst (in_addr_from_string_auto example_env_bad n) < 0)
      (snd (sd_network_get_dns example_env_bad (ifindex example_link))) of
        None \<Rightarrow> 0
      | Some n \<Rightarrow> fst (in_addr_from_string_auto example_env_bad n))"
    by blast
  then have code: "- 22 = fst (in_addr_from_string_auto example_env_bad ''bogus'')"
    unfolding first by simp
  from wf run keys run_bad code show ?thesis by simp
qed

subsection \<open>Scope allocation\<close>

lemma dns_scope_new_cases:
  assumes "dns_scope_new w protocol family = (x, w')"
  shows "(\<exists>r rs. outcomes w = r # rs \<and> r < 0 \<and> x = Inl r \<and> w' = w\<lparr>outcomes := rs\<rparr>) \<or>
     (\<exists>sc. x = Inr sc \<and> zone sc = {} \<and> scope_ptr sc = next_ptr w \<and>
        scope_protocol sc = protocol \<and> scope_family sc = family \<and>
        w' = w\<lparr>outcomes := tl (outcomes w), next_ptr := Suc (next_ptr w)\<rparr> \<and>
        (outcomes w = [] \<or> \<not> hd (outcomes w) < 0))"
proof (cases "outcomes w")
  case Nil
  with assms show ?thesis
    by (auto simp: dns_scope_new_def next_outcome_def)
next
  case (Cons r rs)
  with assms show ?thesis
    by (cases "r < 0") (auto simp: dns_scope_new_def next_outcome_def)
qed

lemma link_relevant_scope_update [simp]:
  "link_relevant env (l\<lparr>unicast_scope := x\<rparr>) family = link_relevant env l family"
  "link_relevant env (l\<lparr>llmnr_ipv4_scope := x\<rparr>) family = link_relevant env l family"
  "link_relevant env (l\<lparr>llmnr_ipv6_scope := x\<rparr>) family = link_relevant env l family"
  by (simp_all add: link_relevant_def split: option.splits)

lemma allocate_block:
  assumes "scope_block pre cur protocol family msg w = (new, w')"
  shows "(new \<noteq> None \<longrightarrow> pre)
    \<and> (pre \<and> cur \<noteq> None \<longrightarrow> new = cur \<and> w' = w)
    \<and> (\<not> pre \<and> cur = None \<longrightarrow> new = None \<and> w' = w)
    \<and> (pre \<and> new = None \<longrightarrow> (\<exists>r. r < 0 \<and> events w' = events w @ [LogWarning msg r]))
    \<and> ((\<forall>r \<in> set (outcomes w). \<not> r < 0) \<longrightarrow>
          (pre \<longrightarrow> new \<noteq> None) \<and> (\<forall>r \<in> set (outcomes w'). \<not> r < 0))
    \<and> (\<exists>es. events w' = events w @ es)
    \<and> next_ptr w \<le> next_ptr w'"
proof (cases pre)
  case False
  with assms have f: "dns_scope_free w cur = (new, w')" by (simp add: scope_block_def)
  show ?thesis
  proof (cases cur)
    case None
    with f False show ?thesis by (simp add: dns_scope_free_def)
  next
    case (Some sc)
    with f False show ?thesis by (auto simp: dns_scope_free_def emit_def)
  qed
next
  case True
  show ?thesis
  proof (cases cur)
    case (Some sc)
    with assms True show ?thesis by (auto simp: scope_block_def)
  next
    case None
    obtain x w1 where n: "dns_scope_new w protocol family = (x, w1)"
      by (cases "dns_scope_new w protocol family") auto
    from dns_scope_new_cases [OF n] show ?thesis
    proof
      assume "\<exists>r rs. outcomes w = r # rs \<and> r < 0 \<and> x = Inl r \<and> w1 = w\<lparr>outcomes := rs\<rparr>"
      then obtain r rs where a: "outcomes w = r # rs" "r < 0" "x = Inl r" "w1 = w\<lparr>outcomes := rs\<rparr>"
        by blast
      with assms True None n have "new = None" "w' = emit (LogWarning msg r) w1"
        by (simp_all add: scope_block_def)
      with a True None show ?thesis by (auto simp: emit_def)
    next
      assume "\<exists>sc. x = Inr sc \<and> zone sc = {} \<and> scope_ptr sc = next_ptr w \<and>
        scope_protocol sc = protocol \<and> scope_family sc = family \<and>
        w1 = w\<lparr>outcomes := tl (outcomes w), next_ptr := Suc (next_ptr w)\<rparr> \<and>
        (outcomes w = [] \<or> \<not> hd (outcomes w) < 0)"
      then obtain sc where a: "x = Inr sc"
        "w1 = w\<lparr>outcomes := tl (outcomes w), next_ptr := Suc (next_ptr w)\<rparr>" by blast
      with assms True None n have "new = Some sc" "w' = w1"
        by (simp_all add: scope_block_def)
      moreover have "set (tl (outcomes w)) \<subseteq> set (outcomes w)"
        by (cases "outcomes w") auto
      ultimately show ?thesis using a True None by auto
    qed
  qed
qed


lemma link_update_same:
  "unicast_scope l = x \<Longrightarrow> l\<lparr>unicast_scope := x\<rparr> = l"
  "llmnr_ipv4_scope l = y \<Longrightarrow> l\<lparr>llmnr_ipv4_scope := y\<rparr> = l"
  "llmnr_ipv6_scope l = z \<Longrightarrow> l\<lparr>llmnr_ipv6_scope := z\<rparr> = l"
  by (cases l; simp)+

lemma allocate_unicast_scope_block:
  "allocate_unicast_scope w l =
     (case scope_block (dns_servers l \<noteq> []) (unicast_scope l) DNS_PROTOCOL_DNS AF_UNSPEC
             ''Failed to allocate DNS scope'' w of
        (new, w') \<Rightarrow> (l\<lparr>unicast_scope := new\<rparr>, w'))"
  by (simp add: allocate_unicast_scope_def scope_block_def link_update_same split: prod.splits sum.splits)

lemma allocate_llmnr_ipv4_scope_block:
  "allocate_llmnr_ipv4_scope env m w l =
     (case scope_block (link_relevant env l AF_INET \<and> l_flags l AND IFF_MULTICAST \<noteq> 0 \<and> use_llmnr m)
             (llmnr_ipv4_scope l) DNS_PROTOCOL_LLMNR AF_INET
             ''Failed to allocate LLMNR IPv4 scope'' w of
        (new, w') \<Rightarrow> (l\<lparr>llmnr_ipv4_scope := new\<rparr>, w'))"
  by (simp add: allocate_llmnr_ipv4_scope_def scope_block_def link_update_same split: prod.splits sum.splits)

lemma allocate_llmnr_ipv6_scope_block:
  "allocate_llmnr_ipv6_scope env m w l =
     (case scope_block (link_relevant env l AF_INET6 \<and> l_flags l AND IFF_MULTICAST \<noteq> 0 \<and> use_llmnr m)
             (llmnr_ipv6_scope l) DNS_PROTOCOL_LLMNR AF_INET6
             ''Failed to allocate LLMNR IPv6 scope'' w of
        (new, w') \<Rightarrow> (l\<lparr>llmnr_ipv6_scope := new\<rparr>, w'))"
  by (simp add: allocate_llmnr_ipv6_scope_def scope_block_def link_update_same split: prod.splits sum.splits)

lemma link_allocate_scopes_blocks:
  assumes "link_allocate_scopes env m w l = (l', w')"
  shows "\<exists>n1 w1 n2 w2 n3.
     scope_block (dns_servers l \<noteq> []) (unicast_scope l) DNS_PROTOCOL_DNS AF_UNSPEC
        ''Failed to allocate DNS scope'' w = (n1, w1) \<and>
     scope_block (link_relevant env l AF_INET \<and> l_flags l AND IFF_MULTICAST \<noteq> 0 \<and> use_llmnr m)
        (llmnr_ipv4_scope l) DNS_PROTOCOL_LLMNR AF_INET
        ''Failed to allocate LLMNR IPv4 scope'' w1 = (n2, w2) \<and>
     scope_block (link_relevant env l AF_INET6 \<and> l_flags l AND IFF_MULTICAST \<noteq> 0 \<and> use_llmnr m)
        (llmnr_ipv6_scope l) DNS_PROTOCOL_LLMNR AF_INET6
        ''Failed to allocate LLMNR IPv6 scope'' w2 = (n3, w') \<and>
     l' = l\<lparr>unicast_scope := n1, llmnr_ipv4_scope := n2, llmnr_ipv6_scope := n3\<rparr>"
proof -
  obtain n1 w1 where b1: "scope_block (dns_servers l \<noteq> []) (unicast_scope l) DNS_PROTOCOL_DNS
      AF_UNSPEC ''Failed to allocate DNS scope'' w = (n1, w1)"
    by (cases "scope_block (dns_servers l \<noteq> []) (unicast_scope l) DNS_PROTOCOL_DNS
      AF_UNSPEC ''Failed to allocate DNS scope'' w") auto
  let ?l1 = "l\<lparr>unicast_scope := n1\<rparr>"
  obtain n2 w2 where b2: "scope_block
      (link_relevant env l AF_INET \<and> l_flags l AND IFF_MULTICAST \<noteq> 0 \<and> use_llmnr m)
      (llmnr_ipv4_scope l) DNS_PROTOCOL_LLMNR AF_INET
      ''Failed to allocate LLMNR IPv4 scope'' w1 = (n2, w2)"
    by (cases "scope_block
      (link_relevant env l AF_INET \<and> l_flags l AND IFF_MULTICAST \<noteq> 0 \<and> use_llmnr m)
      (llmnr_ipv4_scope l) DNS_PROTOCOL_LLMNR AF_INET
      ''Failed to allocate LLMNR IPv4 scope'' w1") auto
  let ?l2 = "?l1\<lparr>llmnr_ipv4_scope := n2\<rparr>"
  obtain n3 w3 where b3: "scope_block
      (link_relevant env l AF_INET6 \<and> l_flags l AND IFF_MULTICAST \<noteq> 0 \<and> use_llmnr m)
      (llmnr_ipv6_scope l) DNS_PROTOCOL_LLMNR AF_INET6
      ''Failed to allocate LLMNR IPv6 scope'' w2 = (n3, w3)"
    by (cases "scope_block
      (link_relevant env l AF_INET6 \<and> l_flags l AND IFF_MULTICAST \<noteq> 0 \<and> use_llmnr m)
      (llmnr_ipv6_scope l) DNS_PROTOCOL_LLMNR AF_INET6
      ''Failed to allocate LLMNR IPv6 scope'' w2") auto
  have s1: "allocate_unicast_scope w l = (?l1, w1)"
    by (simp add: allocate_unicast_scope_block b1)
  have s2: "allocate_llmnr_ipv4_scope env m w1 ?l1 = (?l2, w2)"
    by (simp add: allocate_llmnr_ipv4_scope_block b2)
  have s3: "allocate_llmnr_ipv6_scope env m w2 ?l2 = (?l2\<lparr>llmnr_ipv6_scope := n3\<rparr>, w3)"
    by (simp add: allocate_llmnr_ipv6_scope_block b3)
  have "link_allocate_scopes env m w l = (?l2\<lparr>llmnr_ipv6_scope := n3\<rparr>, w3)"
    by (simp add: link_allocate_scopes_def s1 s2 s3)
  with assms have "l' = l\<lparr>unicast_scope := n1, llmnr_ipv4_scope := n2, llmnr_ipv6_scope := n3\<rparr>"
    and "w' = w3" by simp_all
  with b1 b2 b3 show ?thesis by blast
qed

lemma link_allocate_scopes_wanted:
  assumes "link_allocate_scopes env m w l = (l', w')"
  shows "\<exists>w1 w2.
     scope_block (unicast_wanted l) (unicast_scope l) DNS_PROTOCOL_DNS AF_UNSPEC
        ''Failed to allocate DNS scope'' w = (unicast_scope l', w1) \<and>
     scope_block (llmnr_wanted env m l AF_INET) (llmnr_ipv4_scope l) DNS_PROTOCOL_LLMNR AF_INET
        ''Failed to allocate LLMNR IPv4 scope'' w1 = (llmnr_ipv4_scope l', w2) \<and>
     scope_block (llmnr_wanted env m l AF_INET6) (llmnr_ipv6_scope l) DNS_PROTOCOL_LLMNR AF_INET6
        ''Failed to allocate LLMNR IPv6 scope'' w2 = (llmnr_ipv6_scope l', w') \<and>
     l' = l\<lparr>unicast_scope := unicast_scope l', llmnr_ipv4_scope := llmnr_ipv4_scope l',
            llmnr_ipv6_scope := llmnr_ipv6_scope l'\<rparr>"
proof -
  from link_allocate_scopes_blocks [OF assms] obtain n1 w1 n2 w2 n3 where
    b: "scope_block (dns_servers l \<noteq> []) (unicast_scope l) DNS_PROTOCOL_DNS AF_UNSPEC
        ''Failed to allocate DNS scope'' w = (n1, w1)"
     "scope_block (link_relevant env l AF_INET \<and> l_flags l AND IFF_MULTICAST \<noteq> 0 \<and> use_llmnr m)
        (llmnr_ipv4_scope l) DNS_PROTOCOL_LLMNR AF_INET
        ''Failed to allocate LLMNR IPv4 scope'' w1 = (n2, w2)"
     "scope_block (link_relevant env l AF_INET6 \<and> l_flags l AND IFF_MULTICAST \<noteq> 0 \<and> use_llmnr m)
        (llmnr_ipv6_scope l) DNS_PROTOCOL_LLMNR AF_INET6
        ''Failed to allocate LLMNR IPv6 scope'' w2 = (n3, w')"
     "l' = l\<lparr>unicast_scope := n1, llmnr_ipv4_scope := n2, llmnr_ipv6_scope := n3\<rparr>"
    by blast
  from b(4) have n: "unicast_scope l' = n1" "llmnr_ipv4_scope l' = n2" "llmnr_ipv6_scope l' = n3"
    by simp_all
  have "scope_block (unicast_wanted l) (unicast_scope l) DNS_PROTOCOL_DNS AF_UNSPEC
        ''Failed to allocate DNS scope'' w = (unicast_scope l', w1)"
    using b(1) n by (simp add: unicast_wanted_def)
  moreover have "scope_block (llmnr_wanted env m l AF_INET) (llmnr_ipv4_scope l)
        DNS_PROTOCOL_LLMNR AF_INET ''Failed to allocate LLMNR IPv4 scope'' w1 =
        (llmnr_ipv4_scope l', w2)"
    using b(2) n by (simp add: llmnr_wanted_def multicast_bit)
  moreover have "scope_block (llmnr_wanted env m l AF_INET6) (llmnr_ipv6_scope l)
        DNS_PROTOCOL_LLMNR AF_INET6 ''Failed to allocate LLMNR IPv6 scope'' w2 =
        (llmnr_ipv6_scope l', w')"
    using b(3) n by (simp add: llmnr_wanted_def multicast_bit)
  moreover have "l' = l\<lparr>unicast_scope := unicast_scope l',
      llmnr_ipv4_scope := llmnr_ipv4_scope l', llmnr_ipv6_scope := llmnr_ipv6_scope l'\<rparr>"
    using b(4) n by simp
  ultimately show ?thesis by blast
qed

lemma wanted_scope_update [simp]:
  "unicast_wanted (l\<lparr>unicast_scope := x, llmnr_ipv4_scope := y, llmnr_ipv6_scope := z\<rparr>) =
     unicast_wanted l"
  "llmnr_wanted env m (l\<lparr>unicast_scope := x, llmnr_ipv4_scope := y, llmnr_ipv6_scope := z\<rparr>) f =
     llmnr_wanted env m l f"
  by (simp_all add: unicast_wanted_def llmnr_wanted_def)


lemma scope_block_summary:
  assumes "scope_block pre cur protocol family msg w = (new, w')"
  shows "\<exists>es. events w' = events w @ es
    \<and> (new \<noteq> None \<longrightarrow> pre)
    \<and> (pre \<and> new = None \<longrightarrow> (\<exists>r. r < 0 \<and> LogWarning msg r \<in> set es))
    \<and> ((\<forall>r \<in> set (outcomes w). \<not> r < 0) \<longrightarrow>
          (pre \<longrightarrow> new \<noteq> None) \<and> (\<forall>r \<in> set (outcomes w'). \<not> r < 0))
    \<and> (pre \<and> cur \<noteq> None \<longrightarrow> new = cur)
    \<and> ((cur \<noteq> None) = pre \<longrightarrow> new = cur \<and> w' = w)"
proof -
  note b = allocate_block [OF assms]
  note b1 = b [THEN conjunct1]
  note b2 = b [THEN conjunct2, THEN conjunct1]
  note b3 = b [THEN conjunct2, THEN conjunct2, THEN conjunct1]
  note b4 = b [THEN conjunct2, THEN conjunct2, THEN conjunct2, THEN conjunct1]
  note b5 = b [THEN conjunct2, THEN conjunct2, THEN conjunct2, THEN conjunct2, THEN conjunct1]
  note b6 = b [THEN conjunct2, THEN conjunct2, THEN conjunct2, THEN conjunct2, THEN conjunct2,
      THEN conjunct1]
  from b6 obtain es where es: "events w' = events w @ es" by blast
  have log: "pre \<and> new = None \<longrightarrow> (\<exists>r. r < 0 \<and> LogWarning msg r \<in> set es)"
  proof
    assume "pre \<and> new = None"
    with b4 obtain r where r: "r < 0" "events w' = events w @ [LogWarning msg r]" by blast
    with es have "es = [LogWarning msg r]" by simp
    with r(1) show "\<exists>r. r < 0 \<and> LogWarning msg r \<in> set es" by auto
  qed
  have keep: "pre \<and> cur \<noteq> None \<longrightarrow> new = cur" using b2 by blast
  have noop: "(cur \<noteq> None) = pre \<longrightarrow> new = cur \<and> w' = w"
  proof
    assume m: "(cur \<noteq> None) = pre"
    show "new = cur \<and> w' = w"
    proof (cases pre)
      case True
      with m b2 show ?thesis by blast
    next
      case False
      with m b3 show ?thesis by simp
    qed
  qed
  from es b1 log b5 keep noop show ?thesis by blast
qed

lemma scope_allocation_summary:
  assumes "link_allocate_scopes env m w l = (l', w')"
  shows "l' = l\<lparr>unicast_scope := unicast_scope l', llmnr_ipv4_scope := llmnr_ipv4_scope l',
            llmnr_ipv6_scope := llmnr_ipv6_scope l'\<rparr>
    \<and> (unicast_scope l' \<noteq> None \<longrightarrow> unicast_wanted l')
    \<and> (llmnr_ipv4_scope l' \<noteq> None \<longrightarrow> llmnr_wanted env m l' AF_INET)
    \<and> (llmnr_ipv6_scope l' \<noteq> None \<longrightarrow> llmnr_wanted env m l' AF_INET6)
    \<and> (unicast_wanted l' \<and> unicast_scope l' = None \<longrightarrow>
          (\<exists>r. r < 0 \<and> LogWarning ''Failed to allocate DNS scope'' r
                 \<in> set (drop (length (events w)) (events w'))))
    \<and> (llmnr_wanted env m l' AF_INET \<and> llmnr_ipv4_scope l' = None \<longrightarrow>
          (\<exists>r. r < 0 \<and> LogWarning ''Failed to allocate LLMNR IPv4 scope'' r
                 \<in> set (drop (length (events w)) (events w'))))
    \<and> (llmnr_wanted env m l' AF_INET6 \<and> llmnr_ipv6_scope l' = None \<longrightarrow>
          (\<exists>r. r < 0 \<and> LogWarning ''Failed to allocate LLMNR IPv6 scope'' r
                 \<in> set (drop (length (events w)) (events w'))))
    \<and> ((\<forall>r \<in> set (outcomes w). \<not> r < 0) \<longrightarrow> scopes_match env m l')
    \<and> (\<forall>sc. unicast_wanted l \<and> unicast_scope l = Some sc \<longrightarrow> unicast_scope l' = Some sc)
    \<and> (\<forall>sc. llmnr_wanted env m l AF_INET \<and> llmnr_ipv4_scope l = Some sc \<longrightarrow>
          llmnr_ipv4_scope l' = Some sc)
    \<and> (\<forall>sc. llmnr_wanted env m l AF_INET6 \<and> llmnr_ipv6_scope l = Some sc \<longrightarrow>
          llmnr_ipv6_scope l' = Some sc)
    \<and> (scopes_match env m l \<longrightarrow> l' = l \<and> w' = w)"
proof -
  let ?u = "unicast_wanted l" and ?p4 = "llmnr_wanted env m l AF_INET"
    and ?p6 = "llmnr_wanted env m l AF_INET6"
  let ?n1 = "unicast_scope l'" and ?n2 = "llmnr_ipv4_scope l'" and ?n3 = "llmnr_ipv6_scope l'"
  from link_allocate_scopes_wanted [OF assms] obtain w1 w2 where
    b1: "scope_block ?u (unicast_scope l) DNS_PROTOCOL_DNS AF_UNSPEC
        ''Failed to allocate DNS scope'' w = (?n1, w1)"
    and b2: "scope_block ?p4 (llmnr_ipv4_scope l) DNS_PROTOCOL_LLMNR AF_INET
        ''Failed to allocate LLMNR IPv4 scope'' w1 = (?n2, w2)"
    and b3: "scope_block ?p6 (llmnr_ipv6_scope l) DNS_PROTOCOL_LLMNR AF_INET6
        ''Failed to allocate LLMNR IPv6 scope'' w2 = (?n3, w')"
    and frame: "l' = l\<lparr>unicast_scope := ?n1, llmnr_ipv4_scope := ?n2, llmnr_ipv6_scope := ?n3\<rparr>"
    by blast
  have wu: "unicast_wanted l' = ?u" and w4: "llmnr_wanted env m l' AF_INET = ?p4"
    and w6: "llmnr_wanted env m l' AF_INET6 = ?p6"
    by (subst frame, simp)+
  from scope_block_summary [OF b1] obtain es1 where
    e1: "events w1 = events w @ es1"
    and o1: "?n1 \<noteq> None \<longrightarrow> ?u"
    and f1: "?u \<and> ?n1 = None \<longrightarrow>
        (\<exists>r. r < 0 \<and> LogWarning ''Failed to allocate DNS scope'' r \<in> set es1)"
    and g1: "(\<forall>r \<in> set (outcomes w). \<not> r < 0) \<longrightarrow>
        (?u \<longrightarrow> ?n1 \<noteq> None) \<and> (\<forall>r \<in> set (outcomes w1). \<not> r < 0)"
    and k1: "?u \<and> unicast_scope l \<noteq> None \<longrightarrow> ?n1 = unicast_scope l"
    and z1: "(unicast_scope l \<noteq> None) = ?u \<longrightarrow> ?n1 = unicast_scope l \<and> w1 = w"
    by (elim exE conjE)
  from scope_block_summary [OF b2] obtain es2 where
    e2: "events w2 = events w1 @ es2"
    and o2: "?n2 \<noteq> None \<longrightarrow> ?p4"
    and f2: "?p4 \<and> ?n2 = None \<longrightarrow>
        (\<exists>r. r < 0 \<and> LogWarning ''Failed to allocate LLMNR IPv4 scope'' r \<in> set es2)"
    and g2: "(\<forall>r \<in> set (outcomes w1). \<not> r < 0) \<longrightarrow>
        (?p4 \<longrightarrow> ?n2 \<noteq> None) \<and> (\<forall>r \<in> set (outcomes w2). \<not> r < 0)"
    and k2: "?p4 \<and> llmnr_ipv4_scope l \<noteq> None \<longrightarrow> ?n2 = llmnr_ipv4_scope l"
    and z2: "(llmnr_ipv4_scope l \<noteq> None) = ?p4 \<longrightarrow> ?n2 = llmnr_ipv4_scope l \<and> w2 = w1"
    by (elim exE conjE)
  from scope_block_summary [OF b3] obtain es3 where
    e3: "events w' = events w2 @ es3"
    and o3: "?n3 \<noteq> None \<longrightarrow> ?p6"
    and f3: "?p6 \<and> ?n3 = None \<longrightarrow>
        (\<exists>r. r < 0 \<and> LogWarning ''Failed to allocate LLMNR IPv6 scope'' r \<in> set es3)"
    and g3: "(\<forall>r \<in> set (outcomes w2). \<not> r < 0) \<longrightarrow>
        (?p6 \<longrightarrow> ?n3 \<noteq> None) \<and> (\<forall>r \<in> set (outcomes w'). \<not> r < 0)"
    and k3: "?p6 \<and> llmnr_ipv6_scope l \<noteq> None \<longrightarrow> ?n3 = llmnr_ipv6_scope l"
    and z3: "(llmnr_ipv6_scope l \<noteq> None) = ?p6 \<longrightarrow> ?n3 = llmnr_ipv6_scope l \<and> w' = w2"
    by (elim exE conjE)
  have dr: "drop (length (events w)) (events w') = es1 @ es2 @ es3"
    by (simp add: e1 e2 e3)
  have c2: "?n1 \<noteq> None \<longrightarrow> unicast_wanted l'" unfolding wu by (rule o1)
  have c3: "?n2 \<noteq> None \<longrightarrow> llmnr_wanted env m l' AF_INET" unfolding w4 by (rule o2)
  have c4: "?n3 \<noteq> None \<longrightarrow> llmnr_wanted env m l' AF_INET6" unfolding w6 by (rule o3)
  have c5: "unicast_wanted l' \<and> ?n1 = None \<longrightarrow>
      (\<exists>r. r < 0 \<and> LogWarning ''Failed to allocate DNS scope'' r
             \<in> set (drop (length (events w)) (events w')))"
    unfolding wu dr using f1 by auto
  have c6: "llmnr_wanted env m l' AF_INET \<and> ?n2 = None \<longrightarrow>
      (\<exists>r. r < 0 \<and> LogWarning ''Failed to allocate LLMNR IPv4 scope'' r
             \<in> set (drop (length (events w)) (events w')))"
    unfolding w4 dr using f2 by auto
  have c7: "llmnr_wanted env m l' AF_INET6 \<and> ?n3 = None \<longrightarrow>
      (\<exists>r. r < 0 \<and> LogWarning ''Failed to allocate LLMNR IPv6 scope'' r
             \<in> set (drop (length (events w)) (events w')))"
    unfolding w6 dr using f3 by auto
  have c8: "(\<forall>r \<in> set (outcomes w). \<not> r < 0) \<longrightarrow> scopes_match env m l'"
  proof
    assume a: "\<forall>r \<in> set (outcomes w). \<not> r < 0"
    with g1 have h1: "?u \<longrightarrow> ?n1 \<noteq> None" and a1: "\<forall>r \<in> set (outcomes w1). \<not> r < 0"
      by blast+
    from g2 a1 have h2: "?p4 \<longrightarrow> ?n2 \<noteq> None" and a2: "\<forall>r \<in> set (outcomes w2). \<not> r < 0"
      by blast+
    from g3 a2 have h3: "?p6 \<longrightarrow> ?n3 \<noteq> None" by blast
    show "scopes_match env m l'"
      unfolding scopes_match_def wu w4 w6 using o1 o2 o3 h1 h2 h3 by blast
  qed
  have c9: "\<forall>sc. ?u \<and> unicast_scope l = Some sc \<longrightarrow> ?n1 = Some sc"
    using k1 by auto
  have c10: "\<forall>sc. ?p4 \<and> llmnr_ipv4_scope l = Some sc \<longrightarrow> ?n2 = Some sc"
    using k2 by auto
  have c11: "\<forall>sc. ?p6 \<and> llmnr_ipv6_scope l = Some sc \<longrightarrow> ?n3 = Some sc"
    using k3 by auto
  have c12: "scopes_match env m l \<longrightarrow> l' = l \<and> w' = w"
  proof
    assume "scopes_match env m l"
    then have m1: "(unicast_scope l \<noteq> None) = ?u" and m2: "(llmnr_ipv4_scope l \<noteq> None) = ?p4"
      and m3: "(llmnr_ipv6_scope l \<noteq> None) = ?p6"
      by (simp_all add: scopes_match_def)
    from z1 m1 have n1: "?n1 = unicast_scope l" and x1: "w1 = w" by blast+
    from z2 m2 have n2: "?n2 = llmnr_ipv4_scope l" and x2: "w2 = w1" by blast+
    from z3 m3 have n3: "?n3 = llmnr_ipv6_scope l" and x3: "w' = w2" by blast+
    have "l\<lparr>unicast_scope := unicast_scope l, llmnr_ipv4_scope := llmnr_ipv4_scope l,
        llmnr_ipv6_scope := llmnr_ipv6_scope l\<rparr> = l" by (cases l) simp
    with frame n1 n2 n3 have "l' = l" by simp
    with x1 x2 x3 show "l' = l \<and> w' = w" by simp
  qed
  show ?thesis
    by (rule conjI [OF frame conjI [OF c2 conjI [OF c3 conjI [OF c4 conjI [OF c5 conjI [OF c6
        conjI [OF c7 conjI [OF c8 conjI [OF c9 conjI [OF c10 conjI [OF c11 c12]]]]]]]]]]])
qed

lemma world_same: "w\<lparr>outcomes := outcomes w, next_ptr := next_ptr w, events := events w\<rparr> = w"
  by (cases w) simp

lemma scope_block_exact:
  "scope_block pre cur protocol family msg w =
     (reconciled_scope pre cur (outcome_at w 0)
        \<lparr>scope_ptr = next_ptr w, scope_protocol = protocol, scope_family = family, zone = {}\<rparr>,
      w\<lparr>outcomes := drop (attempts pre cur) (outcomes w),
        next_ptr := next_ptr w + created pre cur (outcome_at w 0),
        events := events w @ reconcile_events pre cur (outcome_at w 0) msg\<rparr>)"
proof (cases pre)
  case False
  then show ?thesis
    by (cases cur)
       (simp_all add: scope_block_def dns_scope_free_def reconciled_scope_def attempts_def
          created_def reconcile_events_def emit_def world_same)
next
  case True
  show ?thesis
  proof (cases cur)
    case (Some sc)
    with True show ?thesis
      by (simp add: scope_block_def reconciled_scope_def attempts_def created_def
          reconcile_events_def world_same)
  next
    case None
    show ?thesis
    proof (cases "outcomes w")
      case Nil
      with True None show ?thesis
        by (simp add: scope_block_def dns_scope_new_def next_outcome_def reconciled_scope_def
            attempts_def created_def reconcile_events_def outcome_at_def)
    next
      case (Cons r rs)
      with True None show ?thesis
        by (cases "r < 0")
           (simp_all add: scope_block_def dns_scope_new_def next_outcome_def
              reconciled_scope_def attempts_def created_def reconcile_events_def outcome_at_def
              emit_def)
    qed
  qed
qed

lemma outcome_at_drop [simp]:
  "outcome_at (w\<lparr>outcomes := drop k (outcomes w), next_ptr := p, events := e\<rparr>) i =
     outcome_at w (k + i)"
  by (auto simp: outcome_at_def)


lemma link_allocate_scopes_exact:
  fixes env m w l
  defines "u \<equiv> unicast_wanted l" and "p4 \<equiv> llmnr_wanted env m l AF_INET"
    and "p6 \<equiv> llmnr_wanted env m l AF_INET6"
  defines "k4 \<equiv> attempts u (unicast_scope l)"
  defines "k6 \<equiv> k4 + attempts p4 (llmnr_ipv4_scope l)"
  defines "c4 \<equiv> created u (unicast_scope l) (outcome_at w 0)"
  defines "c6 \<equiv> c4 + created p4 (llmnr_ipv4_scope l) (outcome_at w k4)"
  assumes run: "link_allocate_scopes env m w l = (l', w')"
  shows "unicast_scope l' =
        reconciled_scope u (unicast_scope l) (outcome_at w 0)
          \<lparr>scope_ptr = next_ptr w, scope_protocol = DNS_PROTOCOL_DNS,
           scope_family = AF_UNSPEC, zone = {}\<rparr>
    \<and> llmnr_ipv4_scope l' =
        reconciled_scope p4 (llmnr_ipv4_scope l) (outcome_at w k4)
          \<lparr>scope_ptr = next_ptr w + c4, scope_protocol = DNS_PROTOCOL_LLMNR,
           scope_family = AF_INET, zone = {}\<rparr>
    \<and> llmnr_ipv6_scope l' =
        reconciled_scope p6 (llmnr_ipv6_scope l) (outcome_at w k6)
          \<lparr>scope_ptr = next_ptr w + c6, scope_protocol = DNS_PROTOCOL_LLMNR,
           scope_family = AF_INET6, zone = {}\<rparr>
    \<and> w' = w\<lparr>outcomes := drop (k6 + attempts p6 (llmnr_ipv6_scope l)) (outcomes w),
             next_ptr := next_ptr w + (c6 + created p6 (llmnr_ipv6_scope l) (outcome_at w k6)),
             events := events w @
               (reconcile_events u (unicast_scope l) (outcome_at w 0)
                  ''Failed to allocate DNS scope'' @
                reconcile_events p4 (llmnr_ipv4_scope l) (outcome_at w k4)
                  ''Failed to allocate LLMNR IPv4 scope'' @
                reconcile_events p6 (llmnr_ipv6_scope l) (outcome_at w k6)
                  ''Failed to allocate LLMNR IPv6 scope'')\<rparr>"
proof -
  from link_allocate_scopes_wanted [OF run] obtain w1 w2 where
    b1: "scope_block u (unicast_scope l) DNS_PROTOCOL_DNS AF_UNSPEC
        ''Failed to allocate DNS scope'' w = (unicast_scope l', w1)"
    and b2: "scope_block p4 (llmnr_ipv4_scope l) DNS_PROTOCOL_LLMNR AF_INET
        ''Failed to allocate LLMNR IPv4 scope'' w1 = (llmnr_ipv4_scope l', w2)"
    and b3: "scope_block p6 (llmnr_ipv6_scope l) DNS_PROTOCOL_LLMNR AF_INET6
        ''Failed to allocate LLMNR IPv6 scope'' w2 = (llmnr_ipv6_scope l', w')"
    unfolding u_def p4_def p6_def by blast
  from b1 have n1: "unicast_scope l' =
        reconciled_scope u (unicast_scope l) (outcome_at w 0)
          \<lparr>scope_ptr = next_ptr w, scope_protocol = DNS_PROTOCOL_DNS,
           scope_family = AF_UNSPEC, zone = {}\<rparr>"
    and w1: "w1 = w\<lparr>outcomes := drop k4 (outcomes w), next_ptr := next_ptr w + c4,
        events := events w @ reconcile_events u (unicast_scope l) (outcome_at w 0)
          ''Failed to allocate DNS scope''\<rparr>"
    unfolding scope_block_exact k4_def c4_def by simp_all
  from b2 have n2: "llmnr_ipv4_scope l' =
        reconciled_scope p4 (llmnr_ipv4_scope l) (outcome_at w k4)
          \<lparr>scope_ptr = next_ptr w + c4, scope_protocol = DNS_PROTOCOL_LLMNR,
           scope_family = AF_INET, zone = {}\<rparr>"
    and w2: "w2 = w\<lparr>outcomes := drop k6 (outcomes w), next_ptr := next_ptr w + c6,
        events := events w @
          (reconcile_events u (unicast_scope l) (outcome_at w 0)
             ''Failed to allocate DNS scope'' @
           reconcile_events p4 (llmnr_ipv4_scope l) (outcome_at w k4)
             ''Failed to allocate LLMNR IPv4 scope'')\<rparr>"
    unfolding scope_block_exact w1 k6_def c6_def by (auto simp: ac_simps)
  from b3 have n3: "llmnr_ipv6_scope l' =
        reconciled_scope p6 (llmnr_ipv6_scope l) (outcome_at w k6)
          \<lparr>scope_ptr = next_ptr w + c6, scope_protocol = DNS_PROTOCOL_LLMNR,
           scope_family = AF_INET6, zone = {}\<rparr>"
    and w3: "w' = w\<lparr>outcomes := drop (k6 + attempts p6 (llmnr_ipv6_scope l)) (outcomes w),
             next_ptr := next_ptr w + (c6 + created p6 (llmnr_ipv6_scope l) (outcome_at w k6)),
             events := events w @
               (reconcile_events u (unicast_scope l) (outcome_at w 0)
                  ''Failed to allocate DNS scope'' @
                reconcile_events p4 (llmnr_ipv4_scope l) (outcome_at w k4)
                  ''Failed to allocate LLMNR IPv4 scope'' @
                reconcile_events p6 (llmnr_ipv6_scope l) (outcome_at w k6)
                  ''Failed to allocate LLMNR IPv6 scope'')\<rparr>"
    unfolding scope_block_exact w2 by (auto simp: ac_simps)
  from n1 n2 n3 w3 show ?thesis by (intro conjI)
qed

text \<open>
  C2 (amended). After \<open>link_allocate_scopes\<close> only the three scope pointers of the link
  have changed, and for each kind: the scope exists only if its condition holds (server
  list non-empty; for LLMNR the link relevant for the family, the multicast flag set and
  the LLMNR policy on); when the condition holds and the scope is absent, its allocation
  was attempted in this run, returned a negative code, and a warning with that very code
  was logged; when no call fails, the scope exists iff its condition holds; a scope that
  is present and wanted is kept as the same object; an unwanted scope that is present is
  released; and a link whose scopes all match is left unchanged, with no release,
  allocation or log line. Exactly: the unicast block takes the first return code to come,
  each LLMNR block the one after the attempts before it; each scope ends as the spec's
  reconciliation says, a created scope being a fresh object of the block's protocol and
  family with an empty zone; and the world ends with the consumed codes dropped, the
  fresh addresses used up, and the blocks' warnings and releases appended in order.
\<close>

theorem scope_allocation:
  fixes env m w l
  defines "k4 \<equiv> attempts (unicast_wanted l) (unicast_scope l)"
  defines "k6 \<equiv> k4 + attempts (llmnr_wanted env m l AF_INET) (llmnr_ipv4_scope l)"
  defines "c4 \<equiv> created (unicast_wanted l) (unicast_scope l) (outcome_at w 0)"
  defines "c6 \<equiv> c4 + created (llmnr_wanted env m l AF_INET) (llmnr_ipv4_scope l) (outcome_at w k4)"
  assumes run: "link_allocate_scopes env m w l = (l', w')"
  shows "l' = l\<lparr>unicast_scope := unicast_scope l', llmnr_ipv4_scope := llmnr_ipv4_scope l',
            llmnr_ipv6_scope := llmnr_ipv6_scope l'\<rparr>
    \<and> (unicast_scope l' \<noteq> None \<longrightarrow> unicast_wanted l')
    \<and> (llmnr_ipv4_scope l' \<noteq> None \<longrightarrow> llmnr_wanted env m l' AF_INET)
    \<and> (llmnr_ipv6_scope l' \<noteq> None \<longrightarrow> llmnr_wanted env m l' AF_INET6)
    \<and> (unicast_wanted l' \<and> unicast_scope l' = None \<longrightarrow>
          unicast_scope l = None \<and> outcome_at w 0 < 0 \<and>
          LogWarning ''Failed to allocate DNS scope'' (outcome_at w 0)
            \<in> set (drop (length (events w)) (events w')))
    \<and> (llmnr_wanted env m l' AF_INET \<and> llmnr_ipv4_scope l' = None \<longrightarrow>
          llmnr_ipv4_scope l = None \<and> outcome_at w k4 < 0 \<and>
          LogWarning ''Failed to allocate LLMNR IPv4 scope'' (outcome_at w k4)
            \<in> set (drop (length (events w)) (events w')))
    \<and> (llmnr_wanted env m l' AF_INET6 \<and> llmnr_ipv6_scope l' = None \<longrightarrow>
          llmnr_ipv6_scope l = None \<and> outcome_at w k6 < 0 \<and>
          LogWarning ''Failed to allocate LLMNR IPv6 scope'' (outcome_at w k6)
            \<in> set (drop (length (events w)) (events w')))
    \<and> ((\<forall>r \<in> set (outcomes w). \<not> r < 0) \<longrightarrow> scopes_match env m l')
    \<and> (\<forall>sc. unicast_wanted l \<and> unicast_scope l = Some sc \<longrightarrow> unicast_scope l' = Some sc)
    \<and> (\<forall>sc. llmnr_wanted env m l AF_INET \<and> llmnr_ipv4_scope l = Some sc \<longrightarrow>
          llmnr_ipv4_scope l' = Some sc)
    \<and> (\<forall>sc. llmnr_wanted env m l AF_INET6 \<and> llmnr_ipv6_scope l = Some sc \<longrightarrow>
          llmnr_ipv6_scope l' = Some sc)
    \<and> (scopes_match env m l \<longrightarrow> l' = l \<and> w' = w)
    \<and> (\<forall>sc. \<not> unicast_wanted l \<and> unicast_scope l = Some sc \<longrightarrow>
          ScopeFree (scope_ptr sc) \<in> set (drop (length (events w)) (events w')))
    \<and> (\<forall>sc. \<not> llmnr_wanted env m l AF_INET \<and> llmnr_ipv4_scope l = Some sc \<longrightarrow>
          ScopeFree (scope_ptr sc) \<in> set (drop (length (events w)) (events w')))
    \<and> (\<forall>sc. \<not> llmnr_wanted env m l AF_INET6 \<and> llmnr_ipv6_scope l = Some sc \<longrightarrow>
          ScopeFree (scope_ptr sc) \<in> set (drop (length (events w)) (events w')))
    \<and> unicast_scope l' =
        reconciled_scope (unicast_wanted l) (unicast_scope l) (outcome_at w 0)
          \<lparr>scope_ptr = next_ptr w, scope_protocol = DNS_PROTOCOL_DNS,
           scope_family = AF_UNSPEC, zone = {}\<rparr>
    \<and> llmnr_ipv4_scope l' =
        reconciled_scope (llmnr_wanted env m l AF_INET) (llmnr_ipv4_scope l) (outcome_at w k4)
          \<lparr>scope_ptr = next_ptr w + c4, scope_protocol = DNS_PROTOCOL_LLMNR,
           scope_family = AF_INET, zone = {}\<rparr>
    \<and> llmnr_ipv6_scope l' =
        reconciled_scope (llmnr_wanted env m l AF_INET6) (llmnr_ipv6_scope l) (outcome_at w k6)
          \<lparr>scope_ptr = next_ptr w + c6, scope_protocol = DNS_PROTOCOL_LLMNR,
           scope_family = AF_INET6, zone = {}\<rparr>
    \<and> w' = w\<lparr>outcomes :=
               drop (k6 + attempts (llmnr_wanted env m l AF_INET6) (llmnr_ipv6_scope l))
                 (outcomes w),
             next_ptr := next_ptr w +
               (c6 + created (llmnr_wanted env m l AF_INET6) (llmnr_ipv6_scope l)
                       (outcome_at w k6)),
             events := events w @
               (reconcile_events (unicast_wanted l) (unicast_scope l) (outcome_at w 0)
                  ''Failed to allocate DNS scope'' @
                reconcile_events (llmnr_wanted env m l AF_INET) (llmnr_ipv4_scope l)
                  (outcome_at w k4) ''Failed to allocate LLMNR IPv4 scope'' @
                reconcile_events (llmnr_wanted env m l AF_INET6) (llmnr_ipv6_scope l)
                  (outcome_at w k6) ''Failed to allocate LLMNR IPv6 scope'')\<rparr>"
proof -
  let ?u = "unicast_wanted l" and ?p4 = "llmnr_wanted env m l AF_INET"
    and ?p6 = "llmnr_wanted env m l AF_INET6"
  let ?k4 = "attempts ?u (unicast_scope l)"
  let ?k6 = "?k4 + attempts ?p4 (llmnr_ipv4_scope l)"
  let ?e1 = "reconcile_events ?u (unicast_scope l) (outcome_at w 0)
      ''Failed to allocate DNS scope''"
  let ?e4 = "reconcile_events ?p4 (llmnr_ipv4_scope l) (outcome_at w ?k4)
      ''Failed to allocate LLMNR IPv4 scope''"
  let ?e6 = "reconcile_events ?p6 (llmnr_ipv6_scope l) (outcome_at w ?k6)
      ''Failed to allocate LLMNR IPv6 scope''"
  note s = scope_allocation_summary [OF run]
  note frame = s [THEN conjunct1]
  note c2 = s [THEN conjunct2, THEN conjunct1]
  note c3 = s [THEN conjunct2, THEN conjunct2, THEN conjunct1]
  note c4 = s [THEN conjunct2, THEN conjunct2, THEN conjunct2, THEN conjunct1]
  note t = s [THEN conjunct2, THEN conjunct2, THEN conjunct2, THEN conjunct2, THEN conjunct2,
      THEN conjunct2, THEN conjunct2]
  note c8 = t [THEN conjunct1]
  note c9 = t [THEN conjunct2, THEN conjunct1]
  note c10 = t [THEN conjunct2, THEN conjunct2, THEN conjunct1]
  note c11 = t [THEN conjunct2, THEN conjunct2, THEN conjunct2, THEN conjunct1]
  note c12 = t [THEN conjunct2, THEN conjunct2, THEN conjunct2, THEN conjunct2]
  note x = link_allocate_scopes_exact [OF run]
  note x1 = x [THEN conjunct1]
  note x2 = x [THEN conjunct2, THEN conjunct1]
  note x3 = x [THEN conjunct2, THEN conjunct2, THEN conjunct1]
  note xw = x [THEN conjunct2, THEN conjunct2, THEN conjunct2]
  have wu: "unicast_wanted l' = ?u" and w4: "llmnr_wanted env m l' AF_INET = ?p4"
    and w6: "llmnr_wanted env m l' AF_INET6 = ?p6"
    by (subst frame, simp)+
  have "events w' = events w @ (?e1 @ ?e4 @ ?e6)" by (subst xw) simp
  then have nev: "drop (length (events w)) (events w') = ?e1 @ ?e4 @ ?e6" by simp
  have c5: "unicast_wanted l' \<and> unicast_scope l' = None \<longrightarrow>
          unicast_scope l = None \<and> outcome_at w 0 < 0 \<and>
          LogWarning ''Failed to allocate DNS scope'' (outcome_at w 0)
            \<in> set (drop (length (events w)) (events w'))"
    unfolding wu nev x1
    by (simp add: reconciled_scope_def reconcile_events_def split: option.splits)
  have c6: "llmnr_wanted env m l' AF_INET \<and> llmnr_ipv4_scope l' = None \<longrightarrow>
          llmnr_ipv4_scope l = None \<and> outcome_at w ?k4 < 0 \<and>
          LogWarning ''Failed to allocate LLMNR IPv4 scope'' (outcome_at w ?k4)
            \<in> set (drop (length (events w)) (events w'))"
    unfolding w4 nev x2
    by (simp add: reconciled_scope_def reconcile_events_def split: option.splits)
  have c7: "llmnr_wanted env m l' AF_INET6 \<and> llmnr_ipv6_scope l' = None \<longrightarrow>
          llmnr_ipv6_scope l = None \<and> outcome_at w ?k6 < 0 \<and>
          LogWarning ''Failed to allocate LLMNR IPv6 scope'' (outcome_at w ?k6)
            \<in> set (drop (length (events w)) (events w'))"
    unfolding w6 nev x3
    by (simp add: reconciled_scope_def reconcile_events_def split: option.splits)
  have c13: "\<forall>sc. \<not> unicast_wanted l \<and> unicast_scope l = Some sc \<longrightarrow>
          ScopeFree (scope_ptr sc) \<in> set (drop (length (events w)) (events w'))"
    unfolding nev by (simp add: reconcile_events_def)
  have c14: "\<forall>sc. \<not> llmnr_wanted env m l AF_INET \<and> llmnr_ipv4_scope l = Some sc \<longrightarrow>
          ScopeFree (scope_ptr sc) \<in> set (drop (length (events w)) (events w'))"
    unfolding nev by (simp add: reconcile_events_def)
  have c15: "\<forall>sc. \<not> llmnr_wanted env m l AF_INET6 \<and> llmnr_ipv6_scope l = Some sc \<longrightarrow>
          ScopeFree (scope_ptr sc) \<in> set (drop (length (events w)) (events w'))"
    unfolding nev by (simp add: reconcile_events_def)
  show ?thesis
    unfolding k4_def k6_def c4_def c6_def
    by (rule conjI [OF frame conjI [OF c2 conjI [OF c3 conjI [OF c4 conjI [OF c5 conjI [OF c6
        conjI [OF c7 conjI [OF c8 conjI [OF c9 conjI [OF c10 conjI [OF c11 conjI [OF c12
        conjI [OF c13 conjI [OF c14 conjI [OF c15 conjI [OF x1 conjI [OF x2
        conjI [OF x3 xw]]]]]]]]]]]]]]]]]])
qed

lemmas example_defs = example_env_def example_manager_def example_world_def example_link_def
  example_server1_def example_server2_def example_address4_def example_address6_def
  example_parse_def

lemmas const_defs = IFF_LOOPBACK_def IFF_MULTICAST_def IFA_F_DEPRECATED_def RT_SCOPE_HOST_def
  RT_SCOPE_NOWHERE_def AF_INET_def AF_INET6_def AF_UNSPEC_def ENOMEM_def EEXIST_def
  LLMNR_DEFAULT_TTL_def IFNAMSIZ_def

lemmas alloc_defs = link_allocate_scopes_def allocate_unicast_scope_def
  allocate_llmnr_ipv4_scope_def allocate_llmnr_ipv6_scope_def dns_scope_new_def
  dns_scope_free_def next_outcome_def emit_def link_relevant_def link_address_relevant_def

theorem scope_allocation_counterexample:
  "dns_servers (fst (link_allocate_scopes example_env example_manager
      (example_world\<lparr>outcomes := [- ENOMEM]\<rparr>) example_link)) \<noteq> []
   \<and> unicast_scope (fst (link_allocate_scopes example_env example_manager
      (example_world\<lparr>outcomes := [- ENOMEM]\<rparr>) example_link)) = None"
  by (simp add: example_defs alloc_defs const_defs)

theorem scope_allocation_witness:
  "link_allocate_scopes example_env example_manager example_world example_link =
     (example_link\<lparr>
        unicast_scope := Some \<lparr>scope_ptr = 100, scope_protocol = DNS_PROTOCOL_DNS,
          scope_family = AF_UNSPEC, zone = {}\<rparr>,
        llmnr_ipv4_scope := Some \<lparr>scope_ptr = 101, scope_protocol = DNS_PROTOCOL_LLMNR,
          scope_family = AF_INET, zone = {}\<rparr>\<rparr>,
      example_world\<lparr>next_ptr := 102\<rparr>)
   \<and> scopes_match example_env example_manager
        (fst (link_allocate_scopes example_env example_manager example_world example_link))
   \<and> link_allocate_scopes example_env example_manager
        (snd (link_allocate_scopes example_env example_manager example_world example_link))
        (fst (link_allocate_scopes example_env example_manager example_world example_link)) =
       link_allocate_scopes example_env example_manager example_world example_link"
proof -
  let ?L = "example_link\<lparr>
        unicast_scope := Some \<lparr>scope_ptr = 100, scope_protocol = DNS_PROTOCOL_DNS,
          scope_family = AF_UNSPEC, zone = {}\<rparr>,
        llmnr_ipv4_scope := Some \<lparr>scope_ptr = 101, scope_protocol = DNS_PROTOCOL_LLMNR,
          scope_family = AF_INET, zone = {}\<rparr>\<rparr>"
  let ?W = "example_world\<lparr>next_ptr := 102\<rparr>"
  have run: "link_allocate_scopes example_env example_manager example_world example_link =
      (?L, ?W)"
    by (simp add: example_defs alloc_defs const_defs)
  have ok: "\<forall>r \<in> set (outcomes example_world). \<not> r < 0"
    by (simp add: example_world_def)
  note t = scope_allocation [OF run]
  from t ok have m: "scopes_match example_env example_manager ?L" by blast
  obtain l2 w2 where run2: "link_allocate_scopes example_env example_manager ?W ?L = (l2, w2)"
    by (cases "link_allocate_scopes example_env example_manager ?W ?L") auto
  from scope_allocation [OF run2] m have "l2 = ?L \<and> w2 = ?W" by blast
  with run2 have again: "link_allocate_scopes example_env example_manager ?W ?L = (?L, ?W)"
    by simp
  from run m again show ?thesis by simp
qed

subsection \<open>Records of an address\<close>

lemma dns_zone_put_cases:
  assumes "dns_zone_put w sc rr = (r, sc', w')"
  shows "events w' = events w \<and> next_ptr w' = next_ptr w \<and>
    ((r = 0 \<and> sc' = sc\<lparr>zone := insert (rr_ptr rr) (zone sc)\<rparr>) \<or>
     (r < 0 \<and> sc' = sc \<and> rr_ptr rr \<notin> zone sc \<and>
      (\<exists>rs. outcomes w = r # rs \<and> w' = w\<lparr>outcomes := rs\<rparr>)))"
proof (cases "rr_ptr rr \<in> zone sc")
  case True
  then have "insert (rr_ptr rr) (zone sc) = zone sc" by auto
  with True assms show ?thesis by (simp add: dns_zone_put_def)
next
  case False
  obtain r0 w0 where n: "next_outcome w = (r0, w0)" by (cases "next_outcome w") auto
  from next_outcome_fields [OF n] next_outcome_cases [OF n] False assms n show ?thesis
    by (cases "r0 < 0") (auto simp: dns_zone_put_def)
qed

lemma dns_zone_put_ok:
  assumes "\<forall>r \<in> set (outcomes w). \<not> r < 0" and "dns_zone_put w sc rr = (r, sc', w')"
  shows "r = 0 \<and> (\<forall>r \<in> set (outcomes w'). \<not> r < 0)"
proof (cases "rr_ptr rr \<in> zone sc")
  case True
  with assms show ?thesis by (simp add: dns_zone_put_def)
next
  case False
  obtain r0 w0 where n: "next_outcome w = (r0, w0)" by (cases "next_outcome w") auto
  from next_outcome_ok [OF assms(1) n] False assms(2) n show ?thesis
    by (auto simp: dns_zone_put_def)
qed

lemma zone_sync_not_relevant:
  assumes "\<not> link_address_relevant a" and "zone_sync w sc a arr prr = (r, w', sc')"
  shows "r = 0 \<and> sc' = sc\<lparr>zone := zone sc - {rr_ptr arr, rr_ptr prr}\<rparr> \<and>
    outcomes w' = outcomes w \<and> next_ptr w' = next_ptr w \<and>
    events w' = events w @ [ZoneRemove (scope_ptr sc) (rr_ptr arr),
                            ZoneRemove (scope_ptr sc) (rr_ptr prr)]"
proof -
  have z: "zone sc - {rr_ptr arr} - {rr_ptr prr} = zone sc - {rr_ptr arr, rr_ptr prr}" by blast
  from assms have "(r, w', sc') =
      (0, emit (ZoneRemove (scope_ptr sc) (rr_ptr prr)) (emit (ZoneRemove (scope_ptr sc) (rr_ptr arr)) w),
       sc\<lparr>zone := zone sc - {rr_ptr arr} - {rr_ptr prr}\<rparr>)"
    by (simp add: zone_sync_def dns_zone_remove_rr_def)
  then have "r = 0" "sc' = sc\<lparr>zone := zone sc - {rr_ptr arr} - {rr_ptr prr}\<rparr>"
    "w' = emit (ZoneRemove (scope_ptr sc) (rr_ptr prr)) (emit (ZoneRemove (scope_ptr sc) (rr_ptr arr)) w)"
    by simp_all
  then show ?thesis unfolding z by (simp add: emit_def)
qed

lemma zone_sync_relevant:
  assumes "link_address_relevant a" and "zone_sync w sc a arr prr = (r, w', sc')"
  shows "events w' = events w \<and> next_ptr w' = next_ptr w \<and>
    ((r = 0 \<and> sc' = sc\<lparr>zone := insert (rr_ptr prr) (insert (rr_ptr arr) (zone sc))\<rparr>) \<or>
     (r < 0 \<and> sc' = sc \<and> rr_ptr arr \<notin> zone sc) \<or>
     (r < 0 \<and> sc' = sc\<lparr>zone := insert (rr_ptr arr) (zone sc)\<rparr> \<and> rr_ptr prr \<notin> zone sc'))"
proof -
  obtain r1 sc1 w1 where p1: "dns_zone_put w sc arr = (r1, sc1, w1)"
    by (cases "dns_zone_put w sc arr") auto
  note c1 = dns_zone_put_cases [OF p1]
  show ?thesis
  proof (cases "r1 < 0")
    case True
    with assms p1 have "r = r1" "w' = w1" "sc' = sc1" by (simp_all add: zone_sync_def)
    with c1 True show ?thesis by auto
  next
    case False
    obtain r2 sc2 w2 where p2: "dns_zone_put w1 sc1 prr = (r2, sc2, w2)"
      by (cases "dns_zone_put w1 sc1 prr") auto
    note c2 = dns_zone_put_cases [OF p2]
    from False c1 have s1: "sc1 = sc\<lparr>zone := insert (rr_ptr arr) (zone sc)\<rparr>"
      "events w1 = events w" "next_ptr w1 = next_ptr w" by auto
    show ?thesis
    proof (cases "r2 < 0")
      case True
      with assms p1 p2 False have "r = r2" "w' = w2" "sc' = sc2" by (simp_all add: zone_sync_def)
      with c2 True s1 show ?thesis by auto
    next
      case r2: False
      with assms p1 p2 False have "r = 0" "w' = w2" "sc' = sc2" by (simp_all add: zone_sync_def)
      with c2 r2 s1 show ?thesis by auto
    qed
  qed
qed

lemma zone_sync_ok:
  assumes "\<forall>r \<in> set (outcomes w). \<not> r < 0" and "zone_sync w sc a arr prr = (r, w', sc')"
  shows "r = 0 \<and> (\<forall>r \<in> set (outcomes w'). \<not> r < 0)"
proof (cases "link_address_relevant a")
  case False
  from zone_sync_not_relevant [OF False assms(2)] assms(1) show ?thesis by simp
next
  case True
  obtain r1 sc1 w1 where p1: "dns_zone_put w sc arr = (r1, sc1, w1)"
    by (cases "dns_zone_put w sc arr") auto
  note o1 = dns_zone_put_ok [OF assms(1) p1]
  obtain r2 sc2 w2 where p2: "dns_zone_put w1 sc1 prr = (r2, sc2, w2)"
    by (cases "dns_zone_put w1 sc1 prr") auto
  from o1 have "\<forall>r \<in> set (outcomes w1). \<not> r < 0" by blast
  note o2 = dns_zone_put_ok [OF this p2]
  from True assms(2) p1 p2 o1 o2 show ?thesis by (simp add: zone_sync_def)
qed

lemma link_address_relevant_rr_update [simp]:
  "link_address_relevant (a\<lparr>llmnr_address_rr := x\<rparr>) = link_address_relevant a"
  "link_address_relevant (a\<lparr>llmnr_ptr_rr := y\<rparr>) = link_address_relevant a"
  by (simp_all add: link_address_relevant_def)

text \<open>The three creation steps of a family block, each on its own.\<close>

lemma key_step:
  assumes "(case key of Some k \<Rightarrow> (Some k, w) | None \<Rightarrow> dns_resource_key_new w t name) = (ko, w1)"
  shows "events w1 = events w \<and> (\<forall>k. key = Some k \<longrightarrow> ko = Some k \<and> w1 = w) \<and>
    ((\<forall>r \<in> set (outcomes w). \<not> r < 0) \<longrightarrow> ko \<noteq> None \<and> (\<forall>r \<in> set (outcomes w1). \<not> r < 0))"
proof (cases key)
  case (Some k)
  with assms show ?thesis by auto
next
  case None
  obtain po w0 where n: "new0 w = (po, w0)" by (cases "new0 w") auto
  from None assms n have w1: "w1 = w0" and ko: "(ko = None) = (po = None)"
    by (auto simp: dns_resource_key_new_def split: option.splits)
  from new0_events [OF n] new0_ok [OF _ n] w1 ko None show ?thesis by auto
qed

lemma address_rr_step:
  assumes "(case llmnr_address_rr a of
              Some rr \<Rightarrow> (Some rr, w1)
            | None \<Rightarrow>
                (case dns_resource_record_new w1 k of
                   (None, w2) \<Rightarrow> (None, w2)
                 | (Some rr, w2) \<Rightarrow>
                     (Some (rr\<lparr>rr_data := data, rr_ttl := LLMNR_DEFAULT_TTL\<rparr>), w2))) = (ao, w2)"
  shows "events w2 = events w1 \<and> (\<forall>x. llmnr_address_rr a = Some x \<longrightarrow> ao = Some x \<and> w2 = w1) \<and>
    ((\<forall>r \<in> set (outcomes w1). \<not> r < 0) \<longrightarrow> ao \<noteq> None \<and> (\<forall>r \<in> set (outcomes w2). \<not> r < 0))"
proof (cases "llmnr_address_rr a")
  case (Some x)
  show ?thesis using assms unfolding Some by auto
next
  case None
  obtain po w0 where n: "new0 w1 = (po, w0)" by (cases "new0 w1") auto
  from None assms n have w2: "w2 = w0" and ao: "(ao = None) = (po = None)"
    by (auto simp: dns_resource_record_new_def split: option.splits)
  from new0_events [OF n] new0_ok [OF _ n] w2 ao None show ?thesis by auto
qed

lemma ptr_rr_step:
  assumes "(case llmnr_ptr_rr a of
              Some rr \<Rightarrow> (Inr rr, w2)
            | None \<Rightarrow>
                (case dns_resource_record_new_reverse w2 family in_addr name of
                   (Inl r, w3) \<Rightarrow> (Inl r, w3)
                 | (Inr rr, w3) \<Rightarrow> (Inr (rr\<lparr>rr_ttl := LLMNR_DEFAULT_TTL\<rparr>), w3))) = (po, w3)"
  shows "events w3 = events w2 \<and> (\<forall>y. llmnr_ptr_rr a = Some y \<longrightarrow> po = Inr y \<and> w3 = w2) \<and>
    (\<forall>r. po = Inl r \<longrightarrow> r < 0) \<and>
    ((\<forall>r \<in> set (outcomes w2). \<not> r < 0) \<longrightarrow>
       (\<exists>y. po = Inr y) \<and> (\<forall>r \<in> set (outcomes w3). \<not> r < 0))"
proof (cases "llmnr_ptr_rr a")
  case (Some y)
  show ?thesis using assms unfolding Some by auto
next
  case None
  obtain r0 w0 where n: "next_outcome w2 = (r0, w0)" by (cases "next_outcome w2") auto
  note f = next_outcome_fields [OF n]
  show ?thesis
  proof (cases "r0 < 0")
    case True
    with None assms n have "po = Inl r0" "w3 = w0"
      by (auto simp: dns_resource_record_new_reverse_def)
    with True f next_outcome_ok [OF _ n] None show ?thesis by auto
  next
    case False
    with None assms n have "\<exists>y. po = Inr y" "events w3 = events w0" "outcomes w3 = outcomes w0"
      by (auto simp: dns_resource_record_new_reverse_def)
    with False f next_outcome_ok [OF _ n] None show ?thesis by auto
  qed
qed

subsection \<open>Registration\<close>








lemma add_rrs_block_cases:
  assumes "add_rrs_block t data name w key sc a = (r, w', k', sc', a')"
  shows "(\<forall>k. key = Some k \<longrightarrow> k' = Some k)
    \<and> (\<forall>x. llmnr_address_rr a = Some x \<longrightarrow> llmnr_address_rr a' = Some x)
    \<and> (\<forall>y. llmnr_ptr_rr a = Some y \<longrightarrow> llmnr_ptr_rr a' = Some y)
    \<and> a' = a\<lparr>llmnr_address_rr := llmnr_address_rr a', llmnr_ptr_rr := llmnr_ptr_rr a'\<rparr>
    \<and> ((r < 0 \<and> sc' = sc \<and> events w' = events w)
       \<or> (\<exists>arr prr w3. llmnr_address_rr a' = Some arr \<and> llmnr_ptr_rr a' = Some prr
            \<and> zone_sync w3 sc a' arr prr = (r, w', sc') \<and> events w3 = events w
            \<and> (key \<noteq> None \<and> llmnr_address_rr a \<noteq> None \<and> llmnr_ptr_rr a \<noteq> None \<longrightarrow> w3 = w)
            \<and> ((\<forall>r \<in> set (outcomes w). \<not> r < 0) \<longrightarrow> (\<forall>r \<in> set (outcomes w3). \<not> r < 0))))
    \<and> ((\<forall>r \<in> set (outcomes w). \<not> r < 0) \<longrightarrow> \<not> r < 0)"
proof -
  let ?KE = "case key of Some k \<Rightarrow> (Some k, w) | None \<Rightarrow> dns_resource_key_new w t name"
  obtain ko w1 where K: "?KE = (ko, w1)" by (cases ?KE) auto
  note ks = key_step [OF K]
  note ks_ev = ks [THEN conjunct1]
  note ks_same = ks [THEN conjunct2, THEN conjunct1]
  note ks_ok = ks [THEN conjunct2, THEN conjunct2]
  have same: "a = a\<lparr>llmnr_address_rr := llmnr_address_rr a, llmnr_ptr_rr := llmnr_ptr_rr a\<rparr>"
    by (cases a) simp
  show ?thesis
  proof (cases ko)
    case None
    with assms K have res: "r = - ENOMEM" "w' = w1" "k' = None" "sc' = sc" "a' = a"
      by (simp_all add: add_rrs_block_def)
    from ks_same None have nk: "key = None" by (cases key) auto
    from ks_ok None have nf: "\<not> (\<forall>r \<in> set (outcomes w). \<not> r < 0)" by blast
    note ev = ks_ev
    from res nk nf ev same show ?thesis by (simp add: ENOMEM_def)
  next
    case (Some k)
    let ?AE = "case llmnr_address_rr a of
              Some rr \<Rightarrow> (Some rr, w1)
            | None \<Rightarrow>
                (case dns_resource_record_new w1 k of
                   (None, w2) \<Rightarrow> (None, w2)
                 | (Some rr, w2) \<Rightarrow>
                     (Some (rr\<lparr>rr_data := data, rr_ttl := LLMNR_DEFAULT_TTL\<rparr>), w2))"
    obtain ao w2 where A: "?AE = (ao, w2)" by (cases ?AE) auto
    note as = address_rr_step [OF A]
    note as_ev = as [THEN conjunct1]
    note as_same = as [THEN conjunct2, THEN conjunct1]
    note as_ok = as [THEN conjunct2, THEN conjunct2]
    from ks_same Some have k': "\<forall>k0. key = Some k0 \<longrightarrow> Some k = Some k0" by auto
    show ?thesis
    proof (cases ao)
      case None
      with assms K Some A have res: "r = - ENOMEM" "w' = w2" "k' = Some k" "sc' = sc" "a' = a"
        by (simp_all add: add_rrs_block_def)
      from as_same None have na: "llmnr_address_rr a = None"
        by (cases "llmnr_address_rr a") auto
      from as_ok None have nf1: "\<not> (\<forall>r \<in> set (outcomes w1). \<not> r < 0)" by blast
      note ev = as_ev
      from nf1 ks_ok have nf: "\<not> (\<forall>r \<in> set (outcomes w). \<not> r < 0)" by blast
      note ev1 = ks_ev
      from res na nf ev ev1 k' same show ?thesis by (auto simp: ENOMEM_def)
    next
      case arr: (Some arr)
      let ?a1 = "a\<lparr>llmnr_address_rr := Some arr\<rparr>"
      let ?PE = "case llmnr_ptr_rr ?a1 of
              Some rr \<Rightarrow> (Inr rr, w2)
            | None \<Rightarrow>
                (case dns_resource_record_new_reverse w2 (a_family ?a1) (a_in_addr ?a1) name of
                   (Inl r, w3) \<Rightarrow> (Inl r, w3)
                 | (Inr rr, w3) \<Rightarrow> (Inr (rr\<lparr>rr_ttl := LLMNR_DEFAULT_TTL\<rparr>), w3))"
      obtain po w3 where P: "?PE = (po, w3)" by (cases ?PE) auto
      note ps = ptr_rr_step [OF P]
      note ps_ev = ps [THEN conjunct1]
      note ps_same = ps [THEN conjunct2, THEN conjunct1]
      note ps_neg = ps [THEN conjunct2, THEN conjunct2, THEN conjunct1]
      note ps_ok = ps [THEN conjunct2, THEN conjunct2, THEN conjunct2]
      from as_same arr have xa: "\<forall>x. llmnr_address_rr a = Some x \<longrightarrow> arr = x" by auto
      have ev3: "events w3 = events w" using ks_ev as_ev ps_ev by simp
      have nf3: "(\<forall>r \<in> set (outcomes w). \<not> r < 0) \<longrightarrow> (\<forall>r \<in> set (outcomes w3). \<not> r < 0)"
        using ks_ok as_ok ps_ok by blast
      show ?thesis
      proof (cases po)
        case (Inl r0)
        with assms K Some A arr P have res: "r = r0" "w' = w3" "k' = Some k" "sc' = sc"
          "a' = ?a1"
          by (simp_all add: add_rrs_block_def Let_def)
        from ps_neg Inl have r0: "r0 < 0" by blast
        from ps_same Inl have np: "llmnr_ptr_rr a = None" by (cases "llmnr_ptr_rr a") auto
        from ps_ok Inl have nf2: "\<not> (\<forall>r \<in> set (outcomes w2). \<not> r < 0)" by auto
        from nf2 ks_ok as_ok have nf: "\<not> (\<forall>r \<in> set (outcomes w). \<not> r < 0)" by blast
        have fr: "?a1 = a\<lparr>llmnr_address_rr := llmnr_address_rr ?a1,
            llmnr_ptr_rr := llmnr_ptr_rr ?a1\<rparr>" by (cases a) simp
        from res r0 np nf ev3 k' xa fr show ?thesis by auto
      next
        case (Inr prr)
        let ?a2 = "a\<lparr>llmnr_address_rr := Some arr, llmnr_ptr_rr := Some prr\<rparr>"
        obtain rz wz scz where Z: "zone_sync w3 sc ?a2 arr prr = (rz, wz, scz)"
          by (cases "zone_sync w3 sc ?a2 arr prr") auto
        with assms K Some A arr P Inr have res: "r = rz" "w' = wz" "k' = Some k" "sc' = scz"
          "a' = ?a2"
          by (simp_all add: add_rrs_block_def Let_def)
        from ps_same Inr have xp: "\<forall>y. llmnr_ptr_rr a = Some y \<longrightarrow> prr = y" by auto
        have w3w: "key \<noteq> None \<and> llmnr_address_rr a \<noteq> None \<and> llmnr_ptr_rr a \<noteq> None \<longrightarrow> w3 = w"
          using ks_same as_same ps_same by auto
        have ok: "(\<forall>r \<in> set (outcomes w). \<not> r < 0) \<longrightarrow> \<not> rz < 0"
        proof
          assume "\<forall>r \<in> set (outcomes w). \<not> r < 0"
          with nf3 have "\<forall>r \<in> set (outcomes w3). \<not> r < 0" by blast
          from zone_sync_ok [OF this Z] show "\<not> rz < 0" by simp
        qed
        have d2: "\<exists>arr' prr' w3'. llmnr_address_rr ?a2 = Some arr' \<and> llmnr_ptr_rr ?a2 = Some prr'
            \<and> zone_sync w3' sc ?a2 arr' prr' = (rz, wz, scz) \<and> events w3' = events w
            \<and> (key \<noteq> None \<and> llmnr_address_rr a \<noteq> None \<and> llmnr_ptr_rr a \<noteq> None \<longrightarrow> w3' = w)
            \<and> ((\<forall>r \<in> set (outcomes w). \<not> r < 0) \<longrightarrow> (\<forall>r \<in> set (outcomes w3'). \<not> r < 0))"
          using Z ev3 w3w nf3 by (intro exI [of _ arr] exI [of _ prr] exI [of _ w3]) simp
        have fr: "?a2 = a\<lparr>llmnr_address_rr := llmnr_address_rr ?a2,
            llmnr_ptr_rr := llmnr_ptr_rr ?a2\<rparr>" by simp
        have c1: "\<forall>k0. key = Some k0 \<longrightarrow> k' = Some k0" using k' res by simp
        have c2: "\<forall>x. llmnr_address_rr a = Some x \<longrightarrow> llmnr_address_rr a' = Some x"
          using xa res by simp
        have c3: "\<forall>y. llmnr_ptr_rr a = Some y \<longrightarrow> llmnr_ptr_rr a' = Some y"
          using xp res by simp
        show ?thesis
          unfolding res(1,2,4,5)
          using c1 c2 c3 fr d2 ok unfolding res(1,2,4,5) by blast
      qed
    qed
  qed
qed

lemma zone_sync_frame:
  assumes "zone_sync w sc a arr prr = (r, w', sc')"
  shows "sc' = sc\<lparr>zone := zone sc'\<rparr>"
proof (cases "link_address_relevant a")
  case True
  from zone_sync_relevant [OF True assms] show ?thesis by auto
next
  case False
  from zone_sync_not_relevant [OF False assms] show ?thesis by auto
qed

lemma add_rrs_block_frame:
  assumes "add_rrs_block t data name w key sc a = (r, w', k', sc', a')"
  shows "sc' = sc\<lparr>zone := zone sc'\<rparr> \<and> records_kept a a' \<and> (key \<noteq> None \<longrightarrow> k' = key)
    \<and> a' = a\<lparr>llmnr_address_rr := llmnr_address_rr a', llmnr_ptr_rr := llmnr_ptr_rr a'\<rparr>"
proof -
  note c = add_rrs_block_cases [OF assms]
  note c1 = c [THEN conjunct1]
  note c2 = c [THEN conjunct2, THEN conjunct1]
  note c3 = c [THEN conjunct2, THEN conjunct2, THEN conjunct1]
  note c4 = c [THEN conjunct2, THEN conjunct2, THEN conjunct2, THEN conjunct1]
  note c5 = c [THEN conjunct2, THEN conjunct2, THEN conjunct2, THEN conjunct2, THEN conjunct1]
  have s: "sc' = sc\<lparr>zone := zone sc'\<rparr>"
    using c5
  proof (elim disjE exE conjE)
    assume "sc' = sc" then show ?thesis by simp
  next
    fix arr prr w3 assume "zone_sync w3 sc a' arr prr = (r, w', sc')"
    then show ?thesis by (rule zone_sync_frame)
  qed
  have f: "a_ptr a' = a_ptr a \<and> a_family a' = a_family a \<and> a_in_addr a' = a_in_addr a"
    by (subst c4, subst (2) c4, subst (3) c4) simp
  from c2 c3 f have k: "records_kept a a'" by (auto simp: records_kept_def)
  from c1 have "key \<noteq> None \<longrightarrow> k' = key" by auto
  with s k c4 show ?thesis by (intro conjI)
qed

lemma records_kept_refl [simp]: "records_kept a a"
  by (simp add: records_kept_def)

lemma records_kept_trans: "records_kept a b \<Longrightarrow> records_kept b c \<Longrightarrow> records_kept a c"
  by (auto simp: records_kept_def)

lemma link_address_add_rrs_frame:
  assumes "link_address_add_rrs m w l a = (m', w', l', a')"
  shows "(\<exists>k4 k6. m' = m\<lparr>host_ipv4_key := k4, host_ipv6_key := k6\<rparr>)
    \<and> (host_ipv4_key m \<noteq> None \<longrightarrow> host_ipv4_key m' = host_ipv4_key m)
    \<and> (host_ipv6_key m \<noteq> None \<longrightarrow> host_ipv6_key m' = host_ipv6_key m)
    \<and> (\<exists>s4 s6. l' = l\<lparr>llmnr_ipv4_scope := s4, llmnr_ipv6_scope := s6\<rparr>)
    \<and> map_option scope_ptr (llmnr_ipv4_scope l') = map_option scope_ptr (llmnr_ipv4_scope l)
    \<and> map_option scope_ptr (llmnr_ipv6_scope l') = map_option scope_ptr (llmnr_ipv6_scope l)
    \<and> a' = a\<lparr>llmnr_address_rr := llmnr_address_rr a', llmnr_ptr_rr := llmnr_ptr_rr a'\<rparr>
    \<and> records_kept a a'"
proof -
  have idm: "m = m\<lparr>host_ipv4_key := host_ipv4_key m, host_ipv6_key := host_ipv6_key m\<rparr>"
    by simp
  have idl: "l = l\<lparr>llmnr_ipv4_scope := llmnr_ipv4_scope l, llmnr_ipv6_scope := llmnr_ipv6_scope l\<rparr>"
    by simp
  have ida: "a = a\<lparr>llmnr_address_rr := llmnr_address_rr a, llmnr_ptr_rr := llmnr_ptr_rr a\<rparr>"
    by simp
  obtain r1 m1 w1 l1 a1 where s4: "add_rrs_ipv4 m w l a = (r1, m1, w1, l1, a1)"
    by (cases "add_rrs_ipv4 m w l a") auto
  have p4: "(\<exists>k4. m1 = m\<lparr>host_ipv4_key := k4\<rparr>)
    \<and> (host_ipv4_key m \<noteq> None \<longrightarrow> host_ipv4_key m1 = host_ipv4_key m)
    \<and> host_ipv6_key m1 = host_ipv6_key m
    \<and> (\<exists>s4. l1 = l\<lparr>llmnr_ipv4_scope := s4\<rparr>)
    \<and> map_option scope_ptr (llmnr_ipv4_scope l1) = map_option scope_ptr (llmnr_ipv4_scope l)
    \<and> llmnr_ipv6_scope l1 = llmnr_ipv6_scope l
    \<and> a1 = a\<lparr>llmnr_address_rr := llmnr_address_rr a1, llmnr_ptr_rr := llmnr_ptr_rr a1\<rparr>
    \<and> records_kept a a1"
  proof (cases "llmnr_ipv4_scope l")
    case None
    with s4 have "m1 = m" "l1 = l" "a1 = a" by (simp_all add: add_rrs_ipv4_def)
    then show ?thesis using idm idl by (auto intro: exI [of _ "host_ipv4_key m"] exI [of _ "llmnr_ipv4_scope l"])
  next
    case (Some sc)
    show ?thesis
    proof (cases "a_family a = AF_INET")
      case False
      with s4 Some have "m1 = m" "l1 = l" "a1 = a" by (simp_all add: add_rrs_ipv4_def)
      then show ?thesis using idm idl by (auto intro: exI [of _ "host_ipv4_key m"] exI [of _ "llmnr_ipv4_scope l"])
    next
      case True
      obtain r0 w0 k0 sc0 a0 where b: "add_rrs_block DNS_TYPE_A (RR_A (a_in_addr a)) (hostname m) w
          (host_ipv4_key m) sc a = (r0, w0, k0, sc0, a0)"
        by (cases "add_rrs_block DNS_TYPE_A (RR_A (a_in_addr a)) (hostname m) w
          (host_ipv4_key m) sc a") auto
      note f = add_rrs_block_frame [OF b]
      from s4 Some True b have res: "m1 = m\<lparr>host_ipv4_key := k0\<rparr>"
        "l1 = l\<lparr>llmnr_ipv4_scope := Some sc0\<rparr>" "a1 = a0"
        by (simp_all add: add_rrs_ipv4_def)
      from f have "sc0 = sc\<lparr>zone := zone sc0\<rparr>" by (rule conjunct1)
      then have "scope_ptr sc0 = scope_ptr sc" by (cases sc) (cases sc0, simp)
      with res f Some show ?thesis by auto
    qed
  qed
  obtain r2 m2 w2 l2 a2 where s6: "add_rrs_ipv6 m1 w1 l1 a1 = (r2, m2, w2, l2, a2)"
    by (cases "add_rrs_ipv6 m1 w1 l1 a1") auto
  have p6: "(\<exists>k6. m2 = m1\<lparr>host_ipv6_key := k6\<rparr>)
    \<and> (host_ipv6_key m1 \<noteq> None \<longrightarrow> host_ipv6_key m2 = host_ipv6_key m1)
    \<and> host_ipv4_key m2 = host_ipv4_key m1
    \<and> (\<exists>s6. l2 = l1\<lparr>llmnr_ipv6_scope := s6\<rparr>)
    \<and> map_option scope_ptr (llmnr_ipv6_scope l2) = map_option scope_ptr (llmnr_ipv6_scope l1)
    \<and> llmnr_ipv4_scope l2 = llmnr_ipv4_scope l1
    \<and> a2 = a1\<lparr>llmnr_address_rr := llmnr_address_rr a2, llmnr_ptr_rr := llmnr_ptr_rr a2\<rparr>
    \<and> records_kept a1 a2"
  proof (cases "llmnr_ipv6_scope l1")
    case None
    with s6 have "m2 = m1" "l2 = l1" "a2 = a1" by (simp_all add: add_rrs_ipv6_def)
    then show ?thesis by (auto intro: exI [of _ "host_ipv6_key m1"] exI [of _ "llmnr_ipv6_scope l1"])
  next
    case (Some sc)
    show ?thesis
    proof (cases "a_family a1 = AF_INET6")
      case False
      with s6 Some have "m2 = m1" "l2 = l1" "a2 = a1" by (simp_all add: add_rrs_ipv6_def)
      then show ?thesis by (auto intro: exI [of _ "host_ipv6_key m1"] exI [of _ "llmnr_ipv6_scope l1"])
    next
      case True
      obtain r0 w0 k0 sc0 a0 where b: "add_rrs_block DNS_TYPE_AAAA (RR_AAAA (a_in_addr a1)) (hostname m1) w1
          (host_ipv6_key m1) sc a1 = (r0, w0, k0, sc0, a0)"
        by (cases "add_rrs_block DNS_TYPE_AAAA (RR_AAAA (a_in_addr a1)) (hostname m1) w1
          (host_ipv6_key m1) sc a1") auto
      note f = add_rrs_block_frame [OF b]
      from s6 Some True b have res: "m2 = m1\<lparr>host_ipv6_key := k0\<rparr>"
        "l2 = l1\<lparr>llmnr_ipv6_scope := Some sc0\<rparr>" "a2 = a0"
        by (simp_all add: add_rrs_ipv6_def)
      from f have "sc0 = sc\<lparr>zone := zone sc0\<rparr>" by (rule conjunct1)
      then have "scope_ptr sc0 = scope_ptr sc" by (cases sc) (cases sc0, simp)
      with res f Some show ?thesis by auto
    qed
  qed
  have res: "(m', l', a') = (m1, l1, a1) \<or> (m', l', a') = (m2, l2, a2)"
    using assms s4 s6 by (cases "r1 < 0"; cases "r2 < 0"; simp add: link_address_add_rrs_def)
  have q1: "(\<exists>k4 k6. m1 = m\<lparr>host_ipv4_key := k4, host_ipv6_key := k6\<rparr>)
    \<and> (host_ipv4_key m \<noteq> None \<longrightarrow> host_ipv4_key m1 = host_ipv4_key m)
    \<and> (host_ipv6_key m \<noteq> None \<longrightarrow> host_ipv6_key m1 = host_ipv6_key m)
    \<and> (\<exists>s4 s6. l1 = l\<lparr>llmnr_ipv4_scope := s4, llmnr_ipv6_scope := s6\<rparr>)
    \<and> map_option scope_ptr (llmnr_ipv4_scope l1) = map_option scope_ptr (llmnr_ipv4_scope l)
    \<and> map_option scope_ptr (llmnr_ipv6_scope l1) = map_option scope_ptr (llmnr_ipv6_scope l)
    \<and> a1 = a\<lparr>llmnr_address_rr := llmnr_address_rr a1, llmnr_ptr_rr := llmnr_ptr_rr a1\<rparr>
    \<and> records_kept a a1"
  proof -
    from p4 obtain k4 s4' where e: "m1 = m\<lparr>host_ipv4_key := k4\<rparr>" "l1 = l\<lparr>llmnr_ipv4_scope := s4'\<rparr>"
      by (elim exE conjE)
    have "m1 = m\<lparr>host_ipv4_key := k4, host_ipv6_key := host_ipv6_key m\<rparr>" by (simp add: e)
    then have em: "\<exists>k4 k6. m1 = m\<lparr>host_ipv4_key := k4, host_ipv6_key := k6\<rparr>" by blast
    have "l1 = l\<lparr>llmnr_ipv4_scope := s4', llmnr_ipv6_scope := llmnr_ipv6_scope l\<rparr>"
      by (simp add: e)
    then have el: "\<exists>s4 s6. l1 = l\<lparr>llmnr_ipv4_scope := s4, llmnr_ipv6_scope := s6\<rparr>" by blast
    from p4 have h4: "host_ipv4_key m \<noteq> None \<longrightarrow> host_ipv4_key m1 = host_ipv4_key m"
      by (elim conjE)
    from p4 have h6: "host_ipv6_key m \<noteq> None \<longrightarrow> host_ipv6_key m1 = host_ipv6_key m"
      by simp
    from p4 have z4: "map_option scope_ptr (llmnr_ipv4_scope l1) = map_option scope_ptr (llmnr_ipv4_scope l)"
      by (elim conjE)
    from p4 have z6: "map_option scope_ptr (llmnr_ipv6_scope l1) = map_option scope_ptr (llmnr_ipv6_scope l)"
      by simp
    from p4 have a1: "a1 = a\<lparr>llmnr_address_rr := llmnr_address_rr a1, llmnr_ptr_rr := llmnr_ptr_rr a1\<rparr>"
      by (elim conjE)
    from p4 have k: "records_kept a a1" by (elim conjE)
    from em h4 h6 el z4 z6 a1 k show ?thesis by (intro conjI)
  qed
  have q2: "(\<exists>k4 k6. m2 = m\<lparr>host_ipv4_key := k4, host_ipv6_key := k6\<rparr>)
    \<and> (host_ipv4_key m \<noteq> None \<longrightarrow> host_ipv4_key m2 = host_ipv4_key m)
    \<and> (host_ipv6_key m \<noteq> None \<longrightarrow> host_ipv6_key m2 = host_ipv6_key m)
    \<and> (\<exists>s4 s6. l2 = l\<lparr>llmnr_ipv4_scope := s4, llmnr_ipv6_scope := s6\<rparr>)
    \<and> map_option scope_ptr (llmnr_ipv4_scope l2) = map_option scope_ptr (llmnr_ipv4_scope l)
    \<and> map_option scope_ptr (llmnr_ipv6_scope l2) = map_option scope_ptr (llmnr_ipv6_scope l)
    \<and> a2 = a\<lparr>llmnr_address_rr := llmnr_address_rr a2, llmnr_ptr_rr := llmnr_ptr_rr a2\<rparr>
    \<and> records_kept a a2"
  proof -
    from p4 obtain k4 s4' where e: "m1 = m\<lparr>host_ipv4_key := k4\<rparr>" "l1 = l\<lparr>llmnr_ipv4_scope := s4'\<rparr>"
      by (elim exE conjE)
    from p6 obtain k6 s6' where e6: "m2 = m1\<lparr>host_ipv6_key := k6\<rparr>" "l2 = l1\<lparr>llmnr_ipv6_scope := s6'\<rparr>"
      by (elim exE conjE)
    have m2: "m2 = m\<lparr>host_ipv4_key := k4, host_ipv6_key := k6\<rparr>" by (simp add: e e6)
    have l2: "l2 = l\<lparr>llmnr_ipv4_scope := s4', llmnr_ipv6_scope := s6'\<rparr>" by (simp add: e e6)
    have a2: "a2 = a\<lparr>llmnr_address_rr := llmnr_address_rr a2, llmnr_ptr_rr := llmnr_ptr_rr a2\<rparr>"
    proof -
      from p4 have x: "a1 = a\<lparr>llmnr_address_rr := llmnr_address_rr a1, llmnr_ptr_rr := llmnr_ptr_rr a1\<rparr>"
        by (elim conjE)
      from p6 have y: "a2 = a1\<lparr>llmnr_address_rr := llmnr_address_rr a2, llmnr_ptr_rr := llmnr_ptr_rr a2\<rparr>"
        by (elim conjE)
      show ?thesis by (subst y, subst x) simp
    qed
    from p4 p6 have k: "records_kept a a2" by (blast intro: records_kept_trans)
    have h4: "host_ipv4_key m \<noteq> None \<longrightarrow> host_ipv4_key m2 = host_ipv4_key m" using p4 p6 by simp
    have h6: "host_ipv6_key m \<noteq> None \<longrightarrow> host_ipv6_key m2 = host_ipv6_key m" using p4 p6 by simp
    have z4: "map_option scope_ptr (llmnr_ipv4_scope l2) = map_option scope_ptr (llmnr_ipv4_scope l)"
      using p4 p6 by simp
    have z6: "map_option scope_ptr (llmnr_ipv6_scope l2) = map_option scope_ptr (llmnr_ipv6_scope l)"
      using p4 p6 by simp
    from m2 have em: "\<exists>k4 k6. m2 = m\<lparr>host_ipv4_key := k4, host_ipv6_key := k6\<rparr>" by blast
    from l2 have el: "\<exists>s4 s6. l2 = l\<lparr>llmnr_ipv4_scope := s4, llmnr_ipv6_scope := s6\<rparr>" by blast
    from em h4 h6 el z4 z6 a2 k show ?thesis by (intro conjI)
  qed
  from res show ?thesis
  proof
    assume "(m', l', a') = (m1, l1, a1)"
    then have "m' = m1" "l' = l1" "a' = a1" by simp_all
    then show ?thesis using q1 by simp
  next
    assume "(m', l', a') = (m2, l2, a2)"
    then have "m' = m2" "l' = l2" "a' = a2" by simp_all
    then show ?thesis using q2 by simp
  qed
qed

end
